theory Spec2Isabelle
  imports Main "HOL-Library.Word"
begin

section \<open>JavaScript values and strings\<close>

text \<open>
  A JavaScript string is a sequence of 16-bit code units. The four functions of the
  repository inspect their argument with \<^verbatim>\<open>typeof input !== 'string'\<close> only, so a
  value that is not a string is represented by its \<^verbatim>\<open>typeof\<close> tag.
\<close>

type_synonym cu = "16 word"
type_synonym jsstring = "cu list"

datatype nonstring =
  Undefined | Null | Boolean | Number | BigInt | Symbol | Object | Function

datatype jsvalue = VString jsstring | VOther nonstring

text \<open>
  Every error of the four functions is a \<^verbatim>\<open>TypeError\<close>: the one that the two strict
  functions throw themselves, and the one of the language where a property of
  \<^verbatim>\<open>undefined\<close> or \<^verbatim>\<open>null\<close> is read. The message is not represented.
\<close>

datatype error = TypeError

text \<open>ASCII literals: \<open>js ''abc''\<close> is the JavaScript string \<^verbatim>\<open>"abc"\<close>.\<close>

definition js :: "string \<Rightarrow> jsstring" where
  "js s = map of_char s"

definition SPACE :: cu where "SPACE = 0x20"
definition HYPHEN :: cu where "HYPHEN = 0x2D"
definition DOT :: cu where "DOT = 0x2E"
definition UNDERSCORE :: cu where "UNDERSCORE = 0x5F"

subsection \<open>Character classes of the regular expressions\<close>

text \<open>\<^verbatim>\<open>[A-Z]\<close>, \<^verbatim>\<open>[a-z]\<close>, \<^verbatim>\<open>[0-9]\<close>: none of the expressions has the \<^verbatim>\<open>i\<close> or
  \<^verbatim>\<open>u\<close> flag, so the classes are the ASCII ranges.\<close>

definition is_AZ :: "cu \<Rightarrow> bool" where
  "is_AZ c \<longleftrightarrow> 0x41 \<le> c \<and> c \<le> 0x5A"

definition is_az :: "cu \<Rightarrow> bool" where
  "is_az c \<longleftrightarrow> 0x61 \<le> c \<and> c \<le> 0x7A"

definition is_09 :: "cu \<Rightarrow> bool" where
  "is_09 c \<longleftrightarrow> 0x30 \<le> c \<and> c \<le> 0x39"

text \<open>\<^verbatim>\<open>\s\<close>, which is also what \<^verbatim>\<open>trim()\<close> removes: the WhiteSpace and
  LineTerminator code points of ECMA-262 (TAB, LF, VT, FF, CR, SP, NBSP, U+1680,
  U+2000..U+200A, LS, PS, U+202F, U+205F, U+3000, U+FEFF).\<close>

definition is_s :: "cu \<Rightarrow> bool" where
  "is_s c \<longleftrightarrow>
     (0x09 \<le> c \<and> c \<le> 0x0D) \<or> c = 0x20 \<or> c = 0xA0 \<or> c = 0x1680 \<or>
     (0x2000 \<le> c \<and> c \<le> 0x200A) \<or> c = 0x2028 \<or> c = 0x2029 \<or>
     c = 0x202F \<or> c = 0x205F \<or> c = 0x3000 \<or> c = 0xFEFF"

text \<open>\<^verbatim>\<open>[a-z0-9]\<close>, \<^verbatim>\<open>[A-Z0-9]\<close>, \<^verbatim>\<open>[a-zA-Z0-9\s-]\<close>, \<^verbatim>\<open>[\s_\-]\<close> and
  \<^verbatim>\<open>[\s_\-\.]\<close>.\<close>

definition is_az09 :: "cu \<Rightarrow> bool" where
  "is_az09 c \<longleftrightarrow> is_az c \<or> is_09 c"

definition is_AZ09 :: "cu \<Rightarrow> bool" where
  "is_AZ09 c \<longleftrightarrow> is_AZ c \<or> is_09 c"

definition is_kept :: "cu \<Rightarrow> bool" where
  "is_kept c \<longleftrightarrow> is_az c \<or> is_AZ c \<or> is_09 c \<or> is_s c \<or> c = HYPHEN"

definition is_sep :: "cu \<Rightarrow> bool" where
  "is_sep c \<longleftrightarrow> is_s c \<or> c = UNDERSCORE \<or> c = HYPHEN"

definition is_sepdot :: "cu \<Rightarrow> bool" where
  "is_sepdot c \<longleftrightarrow> is_s c \<or> c = UNDERSCORE \<or> c = HYPHEN \<or> c = DOT"

subsection \<open>Case conversion\<close>

text \<open>
  \<^verbatim>\<open>toLowerCase\<close> and \<^verbatim>\<open>toUpperCase\<close> follow the Unicode case tables of the JavaScript
  engine, which are no part of the repository. On a string of ASCII code units they
  replace \<^verbatim>\<open>A-Z\<close> by \<^verbatim>\<open>a-z\<close> (and back) and leave the rest; on any other string the
  result is what the engine's tables give, taken as the parameter \<open>U\<close>.
\<close>

record unicode =
  lowerX :: "jsstring \<Rightarrow> jsstring"
  upperX :: "jsstring \<Rightarrow> jsstring"

definition is_ascii :: "cu \<Rightarrow> bool" where
  "is_ascii c \<longleftrightarrow> c < 0x80"

definition ascii_lower :: "cu \<Rightarrow> cu" where
  "ascii_lower c = (if is_AZ c then c + 0x20 else c)"

definition ascii_upper :: "cu \<Rightarrow> cu" where
  "ascii_upper c = (if is_az c then c - 0x20 else c)"

definition toLowerCase :: "unicode \<Rightarrow> jsstring \<Rightarrow> jsstring" where
  "toLowerCase U s = (if list_all is_ascii s then map ascii_lower s else lowerX U s)"

definition toUpperCase :: "unicode \<Rightarrow> jsstring \<Rightarrow> jsstring" where
  "toUpperCase U s = (if list_all is_ascii s then map ascii_upper s else upperX U s)"

text \<open>A sample table for evaluating the functions on concrete strings: it maps the
  ASCII letters and leaves every other code unit as it is.\<close>

definition ascii_tables :: unicode where
  "ascii_tables = \<lparr> lowerX = map ascii_lower, upperX = map ascii_upper \<rparr>"

subsection \<open>String operations\<close>

text \<open>\<^verbatim>\<open>str.trim()\<close>.\<close>

definition trim :: "jsstring \<Rightarrow> jsstring" where
  "trim s = rev (dropWhile is_s (rev (dropWhile is_s s)))"

text \<open>\<^verbatim>\<open>str.split(' ')\<close> and in general splitting at every code unit equal to \<open>d\<close>: the
  result has one more element than the string has separators; the empty string gives
  \<^verbatim>\<open>[""]\<close>.\<close>

fun split_at :: "cu \<Rightarrow> jsstring \<Rightarrow> jsstring list" where
  "split_at d [] = [[]]"
| "split_at d (c # cs) =
     (if c = d then [] # split_at d cs
      else let r = split_at d cs in (c # hd r) # tl r)"

text \<open>\<^verbatim>\<open>str.split(/[...]+/)\<close> for a character class \<open>P\<close>: the expression is greedy, so
  a separator is a maximal run of code units of the class.\<close>

function split_runs :: "(cu \<Rightarrow> bool) \<Rightarrow> jsstring \<Rightarrow> jsstring list" where
  "split_runs P [] = [[]]"
| "split_runs P (c # cs) =
     (if P c then [] # split_runs P (dropWhile P cs)
      else let r = split_runs P cs in (c # hd r) # tl r)"
  by pat_completeness auto
termination
  by (relation "measure (\<lambda>(P, s). length s)")
     (auto simp: length_dropWhile_le less_Suc_eq_le)

text \<open>\<^verbatim>\<open>str.replace(/[...]+/g, ' ')\<close> for a character class \<open>P\<close>: every maximal run
  becomes one space.\<close>

function collapse_runs :: "(cu \<Rightarrow> bool) \<Rightarrow> jsstring \<Rightarrow> jsstring" where
  "collapse_runs P [] = []"
| "collapse_runs P (c # cs) =
     (if P c then SPACE # collapse_runs P (dropWhile P cs)
      else c # collapse_runs P cs)"
  by pat_completeness auto
termination
  by (relation "measure (\<lambda>(P, s). length s)")
     (auto simp: length_dropWhile_le less_Suc_eq_le)

text \<open>\<^verbatim>\<open>words.join(sep)\<close>.\<close>

fun join :: "jsstring \<Rightarrow> jsstring list \<Rightarrow> jsstring" where
  "join sep [] = []"
| "join sep [w] = w"
| "join sep (w # ws) = w @ sep @ join sep ws"

text \<open>\<^verbatim>\<open>.filter(Boolean)\<close> on an array of strings, and the tests
  \<^verbatim>\<open>word === ''\<close> of the loops: only the empty string is falsy.\<close>

definition nonempty :: "jsstring list \<Rightarrow> jsstring list" where
  "nonempty ws = filter (\<lambda>w. w \<noteq> []) ws"

text \<open>\<^verbatim>\<open>/^[...]+$/.test(str)\<close> for a character class \<open>P\<close>.\<close>

definition only :: "(cu \<Rightarrow> bool) \<Rightarrow> jsstring \<Rightarrow> bool" where
  "only P s \<longleftrightarrow> s \<noteq> [] \<and> list_all P s"

subsection \<open>The replacements that insert a space\<close>

text \<open>
  \<^verbatim>\<open>str.replace(/([x])([A-Z])/g, '$1 $2')\<close> for a class \<open>P\<close> of first characters
  (\<^verbatim>\<open>[a-z]\<close> or \<^verbatim>\<open>[a-z0-9]\<close>). The engine tries the expression at each position from
  the left; where the two code units match, it writes them with a space between and
  goes on behind the match; elsewhere it copies one code unit and moves on by one.
\<close>

fun split_pairs :: "(cu \<Rightarrow> bool) \<Rightarrow> jsstring \<Rightarrow> jsstring" where
  "split_pairs P (a # b # cs) =
     (if P a \<and> is_AZ b then a # SPACE # b # split_pairs P cs
      else a # split_pairs P (b # cs))"
| "split_pairs P cs = cs"

text \<open>
  \<^verbatim>\<open>str.replace(/([A-Z]+)([A-Z][a-z])/g, '$1 $2')\<close>. At a position, \<^verbatim>\<open>[A-Z]+\<close> first
  takes the whole run of capitals and then gives them back one by one, down to one,
  until \<^verbatim>\<open>[A-Z][a-z]\<close> matches behind it: \<open>acronym_try k s\<close> tries the lengths
  \<open>k\<close>, \<open>k - 1\<close>, ..., \<open>1\<close> for the first group and returns the two groups and the rest
  of the string behind the match.
\<close>

fun acronym_try :: "nat \<Rightarrow> jsstring \<Rightarrow> (jsstring \<times> jsstring \<times> jsstring) option" where
  "acronym_try 0 s = None"
| "acronym_try (Suc k) s =
     (case drop (Suc k) s of
        b # c # rest \<Rightarrow>
          if is_AZ b \<and> is_az c then Some (take (Suc k) s, [b, c], rest)
          else acronym_try k s
      | _ \<Rightarrow> acronym_try k s)"

definition acronym_match :: "jsstring \<Rightarrow> (jsstring \<times> jsstring \<times> jsstring) option" where
  "acronym_match s = acronym_try (length (takeWhile is_AZ s)) s"

function split_acronyms :: "jsstring \<Rightarrow> jsstring" where
  "split_acronyms [] = []"
| "split_acronyms (c # cs) =
     (case acronym_match (c # cs) of
        Some (g1, g2, rest) \<Rightarrow> g1 @ SPACE # g2 @ split_acronyms rest
      | None \<Rightarrow> c # split_acronyms cs)"
  by pat_completeness auto
termination
proof (relation "measure length")
  show "wf (measure length)" by simp
next
  fix c :: cu and cs x2 g1 y g2 rest
  assume m: "acronym_match (c # cs) = Some x2" "(g1, y) = x2" "(g2, rest) = y"
  have shorter: "acronym_try k s = Some (g1, g2, rest) \<Longrightarrow> length rest < length s" for k s
  proof (induction k)
    case 0
    then show ?case by simp
  next
    case (Suc k)
    show ?case
    proof (cases "drop (Suc k) s")
      case Nil
      with Suc show ?thesis by simp
    next
      case (Cons b t)
      note outer = Cons
      show ?thesis
      proof (cases t)
        case Nil
        with outer Suc show ?thesis by simp
      next
        case (Cons c r)
        have "length (drop (Suc k) s) \<le> length s" by simp
        with outer Cons have "length r < length s" by simp
        with outer Cons Suc show ?thesis by (auto split: if_splits)
      qed
    qed
  qed
  from m have "acronym_try (length (takeWhile is_AZ (c # cs))) (c # cs) = Some (g1, g2, rest)"
    by (simp add: acronym_match_def)
  from shorter [OF this]
  show "(rest, c # cs) \<in> measure length" by simp
next
  fix c :: cu and cs
  show "(cs, c # cs) \<in> measure length" by simp
qed

section \<open>toKebabCase\<close>

text \<open>
  The value of \<^verbatim>\<open>words\<close> in \<^verbatim>\<open>toKebabCase\<close>, step by step as in the source:
  \<^verbatim>\<open>input.trim()\<close>,
  \<^verbatim>\<open>replace(/([a-z0-9])([A-Z])/g, '$1 $2')\<close>,
  \<^verbatim>\<open>replace(/_/g, ' ')\<close>,
  \<^verbatim>\<open>replace(/[^a-zA-Z0-9\s-]/g, '')\<close>,
  \<^verbatim>\<open>replace(/[\s_-]+/g, ' ')\<close> and
  \<^verbatim>\<open>split(' ').filter(Boolean)\<close>.
\<close>

definition kebab_words :: "jsstring \<Rightarrow> jsstring list" where
  "kebab_words input =
     (let str = trim input;
          str = split_pairs is_az09 str;
          str = map (\<lambda>c. if c = UNDERSCORE then SPACE else c) str;
          str = filter is_kept str;
          str = collapse_runs is_sep str
      in nonempty (split_at SPACE str))"

text \<open>
  \<^verbatim>\<open>toKebabCase\<close> returns \<^verbatim>\<open>''\<close> for a value that is not a string and for a string
  that is empty after \<^verbatim>\<open>trim()\<close>, then for an empty list of words, and else
  \<^verbatim>\<open>words.join('-').toLowerCase()\<close>. It has no \<^verbatim>\<open>throw\<close>.
\<close>

definition toKebabCase :: "unicode \<Rightarrow> jsvalue \<Rightarrow> error + jsstring" where
  "toKebabCase U input =
     (case input of
        VOther t \<Rightarrow> Inr []
      | VString s \<Rightarrow>
          if trim s = [] then Inr []
          else let words = kebab_words s in
            if length words = 0 then Inr []
            else Inr (toLowerCase U (join [HYPHEN] words)))"

section \<open>toCamelCase with options (refined_prompt.js)\<close>

text \<open>
  The second argument of a call is \<^verbatim>\<open>undefined\<close> (also where the caller gives none),
  \<^verbatim>\<open>null\<close>, or another value. Of such a value the function reads the property
  \<^verbatim>\<open>preserveAcronyms\<close> and nothing else; the record has what this read gives, \<open>None\<close>
  for \<^verbatim>\<open>undefined\<close> (so also where the value has no such property, as with \<^verbatim>\<open>{}\<close>
  and with a number or a string) and else the truth value of what is read, which is all
  that \<^verbatim>\<open>preserveAcronyms && ...\<close> looks at. The read is one of a data property: it
  returns.
\<close>

record options =
  preserveAcronyms :: "bool option"

datatype optarg = OUndefined | ONull | OValue options

text \<open>The parameter \<^verbatim>\<open>options = {}\<close>: the default stands in for \<^verbatim>\<open>undefined\<close>, and
  for nothing else.\<close>

definition default_options :: "optarg \<Rightarrow> optarg" where
  "default_options arg =
     (case arg of OUndefined \<Rightarrow> OValue \<lparr> preserveAcronyms = None \<rparr> | _ \<Rightarrow> arg)"

text \<open>In \<^verbatim>\<open>const { preserveAcronyms = false } = options\<close> the default \<^verbatim>\<open>false\<close> stands
  in for a property that is \<^verbatim>\<open>undefined\<close>.\<close>

definition preserve :: "options \<Rightarrow> bool" where
  "preserve opts = (case preserveAcronyms opts of None \<Rightarrow> False | Some b \<Rightarrow> b)"

text \<open>The whole statement \<^verbatim>\<open>const { preserveAcronyms = false } = options\<close>, the first
  of the function: \<^verbatim>\<open>null\<close> has no properties to read, and the statement throws a
  \<^verbatim>\<open>TypeError\<close>.\<close>

definition destructure :: "optarg \<Rightarrow> error + bool" where
  "destructure opts =
     (case opts of OValue r \<Rightarrow> Inr (preserve r) | _ \<Rightarrow> Inl TypeError)"

text \<open>The inner function \<^verbatim>\<open>splitCamel\<close>: the acronym replacement, then
  \<^verbatim>\<open>replace(/([a-z0-9])([A-Z])/g, '$1 $2')\<close>, then \<^verbatim>\<open>split(' ')\<close>.\<close>

definition splitCamel :: "jsstring \<Rightarrow> jsstring list" where
  "splitCamel word = split_at SPACE (split_pairs is_az09 (split_acronyms word))"

text \<open>
  The value of \<^verbatim>\<open>resultWords\<close> after the two nested \<^verbatim>\<open>forEach\<close> loops, from the
  trimmed string: \<^verbatim>\<open>words\<close> is
  \<^verbatim>\<open>str.replace(/([a-z])([A-Z])/g, '$1 $2').split(/[\s_\-]+/)\<close>; an empty word is
  passed over, and of the others every part that is not empty is pushed.
\<close>

definition camel_words :: "jsstring \<Rightarrow> jsstring list" where
  "camel_words str =
     (let words = split_runs is_sep (split_pairs is_az str)
      in concat (map (\<lambda>word. nonempty (splitCamel word)) (nonempty words)))"

text \<open>
  The callback of \<^verbatim>\<open>resultWords.map\<close>, on the pair of the index and the word: with
  \<^verbatim>\<open>preserveAcronyms\<close>, a word that matches \<^verbatim>\<open>/^[A-Z0-9]+$/\<close> and is longer than one
  code unit is lowered at index 0 and kept as it is elsewhere; every other word is
  lowered, and from index 1 on its first code unit is put in upper case
  (\<^verbatim>\<open>lower.charAt(0).toUpperCase() + lower.slice(1)\<close>).
\<close>

definition camel_word :: "unicode \<Rightarrow> bool \<Rightarrow> nat \<times> jsstring \<Rightarrow> jsstring" where
  "camel_word U pa iw =
     (case iw of (i, word) \<Rightarrow>
        if pa \<and> only is_AZ09 word \<and> length word > 1
        then (if i = 0 then toLowerCase U word else word)
        else let lower = toLowerCase U word in
          if i = 0 then lower
          else toUpperCase U (take 1 lower) @ drop 1 lower)"

text \<open>
  \<^verbatim>\<open>toCamelCase\<close> reads its options first, and then throws a \<^verbatim>\<open>TypeError\<close> for a
  value that is not a string. It returns
  \<^verbatim>\<open>''\<close> where \<^verbatim>\<open>!str || /^[\s_\-]+$/.test(str)\<close> holds of the trimmed string, and
  where there are no words; else the words, converted, joined by \<^verbatim>\<open>''\<close>.
\<close>

definition toCamelCase :: "unicode \<Rightarrow> optarg \<Rightarrow> jsvalue \<Rightarrow> error + jsstring" where
  "toCamelCase U arg input =
     (case destructure (default_options arg) of
        Inl e \<Rightarrow> Inl e
      | Inr preserveAcronyms' \<Rightarrow>
         (case input of
            VOther t \<Rightarrow> Inl TypeError
          | VString s \<Rightarrow>
              let str = trim s in
              if str = [] \<or> only is_sep str then Inr []
              else let resultWords = camel_words str in
                if length resultWords = 0 then Inr []
                else Inr (join [] (map (camel_word U preserveAcronyms') (enumerate 0 resultWords)))))"

section \<open>toCamelCase without options (the second implementation of that name)\<close>

text \<open>
  The value of \<^verbatim>\<open>words\<close> before the loop that capitalises:
  \<^verbatim>\<open>str.trim().toLowerCase()\<close>, \<^verbatim>\<open>replace(/[\s_\-]+/g, ' ')\<close>, \<^verbatim>\<open>split(' ')\<close>.
  Here no empty word is removed.
\<close>

definition lenient_words :: "unicode \<Rightarrow> jsstring \<Rightarrow> jsstring list" where
  "lenient_words U s = split_at SPACE (collapse_runs is_sep (toLowerCase U (trim s)))"

text \<open>
  \<^verbatim>\<open>words[i]\<close> and \<^verbatim>\<open>words[i][0]\<close>: an index that is not below the length gives
  \<^verbatim>\<open>undefined\<close>.
\<close>

definition at_index :: "'a list \<Rightarrow> nat \<Rightarrow> 'a option" where
  "at_index xs i = (if i < length xs then Some (xs ! i) else None)"

text \<open>
  The body of the loop, at index \<open>i\<close>:
  \<^verbatim>\<open>if (words[i].length > 0) { words[i] = words[i][0].toUpperCase() + words[i].slice(1); }\<close>.
  To read \<^verbatim>\<open>length\<close> or to call \<^verbatim>\<open>toUpperCase\<close> on \<^verbatim>\<open>undefined\<close> throws a
  \<^verbatim>\<open>TypeError\<close>.
\<close>

definition capitalise_at :: "unicode \<Rightarrow> nat \<Rightarrow> jsstring list \<Rightarrow> error + jsstring list" where
  "capitalise_at U i words =
     (case at_index words i of
        None \<Rightarrow> Inl TypeError
      | Some w \<Rightarrow>
          if length w > 0
          then (case at_index w 0 of
                  None \<Rightarrow> Inl TypeError
                | Some c \<Rightarrow> Inr (words[i := toUpperCase U [c] @ drop 1 w]))
          else Inr words)"

text \<open>The loop \<^verbatim>\<open>for (let i = 1; i < words.length; i++)\<close>, from the index \<open>i\<close> on.\<close>

function capitalise_loop :: "unicode \<Rightarrow> nat \<Rightarrow> jsstring list \<Rightarrow> error + jsstring list" where
  "capitalise_loop U i words =
     (if i < length words
      then (case capitalise_at U i words of
              Inl e \<Rightarrow> Inl e
            | Inr words' \<Rightarrow> capitalise_loop U (i + 1) words')
      else Inr words)"
  by pat_completeness auto
termination
proof (relation "measure (\<lambda>(U, i, words). length words - i)")
  show "wf (measure (\<lambda>(U, i, words). length words - i))" by simp
next
  fix U :: unicode and i :: nat and words words' :: "jsstring list"
  assume "i < length words" "capitalise_at U i words = Inr words'"
  then have "length words' = length words" "i < length words"
    by (auto simp: capitalise_at_def split: option.splits if_splits)
  then show "((U, i + 1, words'), (U, i, words)) \<in> measure (\<lambda>(U, i, words). length words - i)"
    by simp
qed

declare capitalise_loop.simps [simp del]

text \<open>This \<^verbatim>\<open>toCamelCase\<close> returns \<^verbatim>\<open>''\<close> for a value that is not a string, and has
  no \<^verbatim>\<open>throw\<close>: after the loop from index 1 it returns \<^verbatim>\<open>words.join('')\<close>.\<close>

definition toCamelCase_lenient :: "unicode \<Rightarrow> jsvalue \<Rightarrow> error + jsstring" where
  "toCamelCase_lenient U input =
     (case input of
        VOther t \<Rightarrow> Inr []
      | VString s \<Rightarrow>
          (case capitalise_loop U 1 (lenient_words U s) of
             Inl e \<Rightarrow> Inl e
           | Inr words \<Rightarrow> Inr (join [] words)))"

section \<open>toDotCase\<close>

text \<open>
  The value of \<^verbatim>\<open>words\<close> in \<^verbatim>\<open>toDotCase\<close>, from the trimmed string:
  \<^verbatim>\<open>replace(/([a-z])([A-Z])/g, '$1 $2')\<close>,
  \<^verbatim>\<open>replace(/([A-Z]+)([A-Z][a-z])/g, '$1 $2')\<close>,
  \<^verbatim>\<open>replace(/[\s_\-\.]+/g, ' ')\<close> and \<^verbatim>\<open>split(' ').filter(Boolean)\<close>.
\<close>

definition dot_words :: "jsstring \<Rightarrow> jsstring list" where
  "dot_words str =
     (let str = split_acronyms (split_pairs is_az str);
          str = collapse_runs is_sepdot str
      in nonempty (split_at SPACE str))"

text \<open>
  \<^verbatim>\<open>toDotCase\<close> throws a \<^verbatim>\<open>TypeError\<close> for a value that is not a string. It returns
  \<^verbatim>\<open>''\<close> where \<^verbatim>\<open>!str || /^[\s_\-\.]+$/.test(str)\<close> holds of the trimmed string, and
  else \<^verbatim>\<open>words.map(w => w.toLowerCase()).join('.')\<close>.
\<close>

definition toDotCase :: "unicode \<Rightarrow> jsvalue \<Rightarrow> error + jsstring" where
  "toDotCase U input =
     (case input of
        VOther t \<Rightarrow> Inl TypeError
      | VString s \<Rightarrow>
          let str = trim s in
          if str = [] \<or> only is_sepdot str then Inr []
          else Inr (join [DOT] (map (toLowerCase U) (dot_words str))))"

section \<open>Properties of strings and of the case tables\<close>

text \<open>Two neighbouring code units \<open>d\<close>.\<close>

fun adjacent :: "cu \<Rightarrow> jsstring \<Rightarrow> bool" where
  "adjacent d (a # b # cs) = ((a = d \<and> b = d) \<or> adjacent d (b # cs))"
| "adjacent d [a] = False"
| "adjacent d [] = False"

text \<open>No leading, trailing or consecutive \<open>d\<close>.\<close>

definition well_joined :: "cu \<Rightarrow> jsstring \<Rightarrow> bool" where
  "well_joined d s \<longleftrightarrow> (s = [] \<or> (hd s \<noteq> d \<and> last s \<noteq> d)) \<and> \<not> adjacent d s"

text \<open>
  What the theorems below need of the engine's case tables, where they need it. All of
  it holds of the Unicode tables: a case conversion writes no white space, underscore,
  hyphen or dot that it has not read, it does not delete a string, lowering leaves no
  ASCII capital and changes nothing when applied again, and a string of separators has
  no letters to convert.
\<close>

definition no_new_delims :: "(jsstring \<Rightarrow> jsstring) \<Rightarrow> bool" where
  "no_new_delims f \<longleftrightarrow> (\<forall>s c. c \<in> set (f s) \<and> is_sepdot c \<longrightarrow> c \<in> set s)"

definition keeps_nonempty :: "(jsstring \<Rightarrow> jsstring) \<Rightarrow> bool" where
  "keeps_nonempty f \<longleftrightarrow> (\<forall>s. s \<noteq> [] \<longrightarrow> f s \<noteq> [])"

definition no_capitals :: "(jsstring \<Rightarrow> jsstring) \<Rightarrow> bool" where
  "no_capitals f \<longleftrightarrow> (\<forall>s. list_all (\<lambda>c. \<not> is_AZ c) (f s))"

definition idempotent :: "(jsstring \<Rightarrow> jsstring) \<Rightarrow> bool" where
  "idempotent f \<longleftrightarrow> (\<forall>s. f (f s) = f s)"

definition fixes_separators :: "(jsstring \<Rightarrow> jsstring) \<Rightarrow> bool" where
  "fixes_separators f \<longleftrightarrow> (\<forall>s. list_all is_sep s \<longrightarrow> f s = s)"

text \<open>
  The words \<open>ws\<close> of the string \<open>u @ x # v\<close> keep the code unit \<open>x\<close> and do not
  break at it: one of the words is \<open>p @ x # q\<close>; the words before it, and then \<open>p\<close>,
  are the code units of \<open>u\<close> that are no separators, in their order; \<open>q\<close> and the words
  behind are those of \<open>v\<close>; and \<open>p\<close> (or \<open>q\<close>) is empty only where \<open>x\<close> stands at the
  start (the end) of the string or next to a separator.
\<close>

definition in_one_word :: "(cu \<Rightarrow> bool) \<Rightarrow> jsstring list \<Rightarrow> jsstring \<Rightarrow> cu \<Rightarrow> jsstring \<Rightarrow> bool" where
  "in_one_word sep ws u x v \<longleftrightarrow>
     (\<exists>ts1 p q ts2. ws = ts1 @ [p @ x # q] @ ts2 \<and>
        concat ts1 @ p = filter (\<lambda>c. \<not> sep c) u \<and>
        q @ concat ts2 = filter (\<lambda>c. \<not> sep c) v \<and>
        (p = [] \<longrightarrow> u = [] \<or> sep (last u)) \<and>
        (q = [] \<longrightarrow> v = [] \<or> sep (hd v)))"

text \<open>
  The words \<open>ws\<close> of the string \<open>u @ a # b # v\<close> break between \<open>a\<close> and \<open>b\<close>: one
  word ends with \<open>a\<close> and the next one begins with \<open>b\<close>; the words before, and then
  the first of the two without its \<open>a\<close>, are the code units of \<open>u\<close> that \<open>sep\<close> does
  not hold of, in their order, and likewise behind.
\<close>

definition boundary_between ::
    "(cu \<Rightarrow> bool) \<Rightarrow> jsstring list \<Rightarrow> jsstring \<Rightarrow> cu \<Rightarrow> cu \<Rightarrow> jsstring \<Rightarrow> bool" where
  "boundary_between sep ws u a b v \<longleftrightarrow>
     (\<exists>ts1 p q ts2. ws = ts1 @ [p @ [a], b # q] @ ts2 \<and>
        concat ts1 @ p = filter (\<lambda>c. \<not> sep c) u \<and>
        q @ concat ts2 = filter (\<lambda>c. \<not> sep c) v)"

text \<open>What \<open>toKebabCase\<close> removes: every code unit that is no ASCII letter or digit.\<close>

definition is_removed :: "cu \<Rightarrow> bool" where
  "is_removed c \<longleftrightarrow> \<not> (is_az c \<or> is_AZ c \<or> is_09 c)"

text \<open>What one turn of the loop of the \<open>toCamelCase\<close> without options makes of a word:
  an empty word is left as it is.\<close>

definition capitalise :: "unicode \<Rightarrow> jsstring \<Rightarrow> jsstring" where
  "capitalise U w = (if length w > 0 then toUpperCase U (take 1 w) @ drop 1 w else w)"

text \<open>The words of \<open>toCamelCase\<close> read off the string in which the first
  replacement has been made: \<open>camel_words str = words_of (split_pairs is_az str)\<close>.\<close>

definition words_of :: "jsstring \<Rightarrow> jsstring list" where
  "words_of X = concat (map (\<lambda>word. nonempty (splitCamel word)) (nonempty (split_runs is_sep X)))"

section \<open>Auxiliary facts\<close>

lemmas class_defs =
  is_AZ_def is_az_def is_09_def is_s_def is_az09_def is_AZ09_def is_kept_def
  is_sep_def is_sepdot_def is_ascii_def SPACE_def HYPHEN_def DOT_def UNDERSCORE_def

lemmas eval_defs =
  class_defs js_def trim_def only_def nonempty_def ascii_lower_def ascii_upper_def
  toLowerCase_def toUpperCase_def acronym_match_def splitCamel_def
  kebab_words_def toKebabCase_def preserve_def camel_words_def camel_word_def
  default_options_def destructure_def toCamelCase_def lenient_words_def
  at_index_def capitalise_at_def capitalise_loop.simps toCamelCase_lenient_def
  dot_words_def toDotCase_def enumerate_eq_zip

subsection \<open>The second argument of toCamelCase\<close>

lemma toCamelCase_value:
  "toCamelCase U (OValue opts) input =
     (case input of
        VOther t \<Rightarrow> Inl TypeError
      | VString s \<Rightarrow>
          let str = trim s in
          if str = [] \<or> only is_sep str then Inr []
          else let resultWords = camel_words str in
            if length resultWords = 0 then Inr []
            else Inr (join [] (map (camel_word U (preserve opts)) (enumerate 0 resultWords))))"
  by (simp add: toCamelCase_def default_options_def destructure_def)

lemma toCamelCase_undefined:
  "toCamelCase U OUndefined input = toCamelCase U (OValue \<lparr> preserveAcronyms = None \<rparr>) input"
  by (simp add: toCamelCase_def default_options_def)

lemma toCamelCase_null: "toCamelCase U ONull input = Inl TypeError"
  by (simp add: toCamelCase_def default_options_def destructure_def)

lemma camel_arg:
  assumes "arg \<noteq> ONull"
  shows "\<exists>opts. \<forall>input. toCamelCase U arg input = toCamelCase U (OValue opts) input"
proof (cases arg)
  case OUndefined
  then show ?thesis using toCamelCase_undefined by blast
next
  case ONull
  with assms show ?thesis by simp
next
  case (OValue opts)
  then show ?thesis by blast
qed

subsection \<open>The loop of the toCamelCase without options\<close>

lemma capitalise_at_eq:
  assumes "i < length ws"
  shows "capitalise_at U i ws = Inr (ws[i := capitalise U (ws ! i)])"
proof (cases "ws ! i")
  case Nil
  with assms list_update_id [of ws i] show ?thesis
    by (simp add: capitalise_at_def at_index_def capitalise_def)
next
  case (Cons c cs)
  with assms show ?thesis by (simp add: capitalise_at_def at_index_def capitalise_def)
qed

lemma capitalise_loop_eq:
  "capitalise_loop U i ws = Inr (take i ws @ map (capitalise U) (drop i ws))"
proof (induction U i ws rule: capitalise_loop.induct)
  case (1 U i ws)
  show ?case
  proof (cases "i < length ws")
    case True
    let ?ws = "ws[i := capitalise U (ws ! i)]"
    have "capitalise_loop U i ws = capitalise_loop U (i + 1) ?ws"
      using True by (subst capitalise_loop.simps) (simp add: capitalise_at_eq)
    also have "\<dots> = Inr (take (i + 1) ?ws @ map (capitalise U) (drop (i + 1) ?ws))"
      using True by (intro 1) (simp_all add: capitalise_at_eq)
    also have "take (i + 1) ?ws = take i ws @ [capitalise U (ws ! i)]"
      using True by (simp add: take_Suc_conv_app_nth)
    also have "drop (i + 1) ?ws = drop (i + 1) ws" by simp
    finally show ?thesis using True by (simp add: Cons_nth_drop_Suc [symmetric])
  next
    case False
    then show ?thesis by (subst capitalise_loop.simps) simp
  qed
qed

subsection \<open>Character classes\<close>

lemma AZ_not_az: "is_AZ c \<Longrightarrow> \<not> is_az c"
  by (auto simp: class_defs word_le_nat_alt)
lemma AZ_not_09: "is_AZ c \<Longrightarrow> \<not> is_09 c"
  by (auto simp: class_defs word_le_nat_alt)
lemma AZ_not_s: "is_AZ c \<Longrightarrow> \<not> is_sepdot c"
  by (auto simp: class_defs word_le_nat_alt)
lemma az_not_s: "is_az c \<Longrightarrow> \<not> is_sepdot c"
  by (auto simp: class_defs word_le_nat_alt)
lemma d09_not_s: "is_09 c \<Longrightarrow> \<not> is_sepdot c"
  by (auto simp: class_defs word_le_nat_alt)
lemma lower_AZ: "is_AZ c \<Longrightarrow> is_az (ascii_lower c)"
  unfolding class_defs ascii_lower_def by (auto simp: word_le_nat_alt unat_word_ariths)
lemma lower_not_AZ: "\<not> is_AZ (ascii_lower c)"
  unfolding class_defs ascii_lower_def by (simp; unat_arith)
lemma lower_other: "\<not> is_AZ c  \<Longrightarrow> ascii_lower c = c"
  by (simp add: ascii_lower_def)
subsection \<open>trim\<close>

lemma dropWhile_keep: "m \<noteq> [] \<Longrightarrow> \<not> P (hd m) \<Longrightarrow> dropWhile P (u @ m) = dropWhile P u @ m"
  by (induction u) (auto simp: neq_Nil_conv)

lemma last_dropWhile_ne: "dropWhile P xs \<noteq> [] \<Longrightarrow> last (dropWhile P xs) = last xs"
  by (induction xs) (auto split: if_splits)

lemma set_trim: "set (trim s) \<subseteq> set s"
proof
  fix x assume "x \<in> set (trim s)"
  then have "x \<in> set (dropWhile is_s (rev (dropWhile is_s s)))" by (simp add: trim_def)
  then have "x \<in> set (rev (dropWhile is_s s))" by (rule set_dropWhileD)
  then have "x \<in> set (dropWhile is_s s)" by simp
  then show "x \<in> set s" by (rule set_dropWhileD)
qed

lemma trim_middle:
  assumes "m \<noteq> []" "\<not> is_s (hd m)" "\<not> is_s (last m)"
  shows "trim (u @ m @ v) = dropWhile is_s u @ m @ rev (dropWhile is_s (rev v))"
proof -
  have "m @ v \<noteq> []" "\<not> is_s (hd (m @ v))" using assms by simp_all
  then have 1: "dropWhile is_s (u @ m @ v) = dropWhile is_s u @ m @ v"
    by (rule dropWhile_keep)
  let ?w = "rev m @ rev (dropWhile is_s u)"
  have "?w \<noteq> []" "\<not> is_s (hd ?w)" using assms by (simp_all add: hd_rev)
  then have 2: "dropWhile is_s (rev v @ ?w) = dropWhile is_s (rev v) @ ?w"
    by (rule dropWhile_keep)
  have "trim (u @ m @ v) = rev (dropWhile is_s (rev (dropWhile is_s u @ m @ v)))"
    unfolding trim_def 1 ..
  also have "rev (dropWhile is_s u @ m @ v) = rev v @ ?w" by simp
  also note 2
  finally show ?thesis by simp
qed

lemma trim_id:
  assumes "s \<noteq> []" "\<not> is_s (hd s)" "\<not> is_s (last s)"
  shows "trim s = s"
proof -
  have "trim ([] @ s @ []) = dropWhile is_s [] @ s @ rev (dropWhile is_s (rev []))"
    using assms by (rule trim_middle)
  then show ?thesis by simp
qed

subsection \<open>join\<close>

lemma join_Nil_sep: "join [] ws = concat ws"
  by (induction "[] :: jsstring" ws rule: join.induct) auto

lemma set_join: "set (join sep ws) \<subseteq> set sep \<union> \<Union> (set ` set ws)"
  by (induction sep ws rule: join.induct) auto

lemma map_join: "map f (join sep ws) = join (map f sep) (map (map f) ws)"
  by (induction sep ws rule: join.induct) auto

lemma join_eq_Nil: "\<forall>w\<in>set ws. w \<noteq> [] \<Longrightarrow> join sep ws = [] \<longleftrightarrow> ws = []"
  by (induction sep ws rule: join.induct) auto

subsection \<open>split\<close>

lemma split_at_ne [simp]: "split_at d s \<noteq> []"
  by (induction s) (auto simp: Let_def)

lemma split_runs_ne [simp]: "split_runs P s \<noteq> []"
  by (induction P s rule: split_runs.induct) (auto simp: Let_def)

lemma split_at_set: "\<forall>w\<in>set (split_at d s). d \<notin> set w \<and> set w \<subseteq> set s"
proof (induction s)
  case Nil
  then show ?case by simp
next
  case (Cons c cs)
  obtain x xs where r: "split_at d cs = x # xs" by (cases "split_at d cs") auto
  with Cons show ?case by (auto simp: Let_def)
qed

lemma split_runs_set: "\<forall>w\<in>set (split_runs P s). (\<forall>c\<in>set w. \<not> P c) \<and> set w \<subseteq> set s"
proof (induction P s rule: split_runs.induct)
  case (1 P)
  then show ?case by simp
next
  case (2 P c cs)
  have sub: "set (dropWhile P cs) \<subseteq> set cs" by (auto dest: set_dropWhileD)
  show ?case
  proof (cases "P c")
    case True
    with 2 sub show ?thesis by auto
  next
    case False
    obtain x xs where r: "split_runs P cs = x # xs" by (cases "split_runs P cs") auto
    from 2(2) [OF False] r have "(\<forall>c\<in>set x. \<not> P c) \<and> set x \<subseteq> set cs"
      "\<forall>w\<in>set xs. (\<forall>c\<in>set w. \<not> P c) \<and> set w \<subseteq> set cs" by auto
    with False r show ?thesis by (auto simp: Let_def)
  qed
qed

lemma split_collapse: "P SPACE \<Longrightarrow> split_at SPACE (collapse_runs P s) = split_runs P s"
  by (induction P s rule: split_runs.induct) (auto simp: Let_def)

lemma set_split_pairs: "set (split_pairs P s) \<subseteq> insert SPACE (set s)"
  by (induction P s rule: split_pairs.induct) auto

lemma split_pairs_id: "\<forall>c\<in>set s. \<not> is_AZ c \<Longrightarrow> split_pairs P s = s"
  by (induction P s rule: split_pairs.induct) auto

subsection \<open>The match of an acronym\<close>

lemma acronym_try_skip:
  "(\<And>b c r. drop (Suc k) s = b # c # r \<Longrightarrow> \<not> (is_AZ b \<and> is_az c)) \<Longrightarrow>
     acronym_try (Suc k) s = acronym_try k s"
  by (auto split: list.split)

lemma acronym_try_Some:
  "acronym_try k s = Some (g1, g2, rest) \<Longrightarrow>
     \<exists>j b c. 0 < j \<and> j \<le> k \<and> g1 = take j s \<and> g2 = [b, c] \<and> is_AZ b \<and> is_az c \<and>
       drop j s = b # c # rest"
proof (induction k)
  case 0
  then show ?case by simp
next
  case (Suc k)
  show ?case
  proof (cases "\<exists>b c r. drop (Suc k) s = b # c # r \<and> is_AZ b \<and> is_az c")
    case True
    then obtain b c r where d: "drop (Suc k) s = b # c # r" "is_AZ b" "is_az c" by blast
    with Suc.prems have "g1 = take (Suc k) s" "g2 = [b, c]" "rest = r" by simp_all
    with d show ?thesis by blast
  next
    case False
    then have "acronym_try (Suc k) s = acronym_try k s"
      by (auto split: list.split)
    with Suc.prems have "acronym_try k s = Some (g1, g2, rest)" by simp
    from Suc.IH [OF this] obtain j b c where
      "0 < j" "j \<le> k" "g1 = take j s" "g2 = [b, c]" "is_AZ b" "is_az c"
      "drop j s = b # c # rest" by blast
    moreover from this have "j \<le> Suc k" by simp
    ultimately show ?thesis by blast
  qed
qed

lemma acronym_match_iff:
  "acronym_match s = Some (g1, g2, rest) \<longleftrightarrow>
     (\<exists>b c. g1 \<noteq> [] \<and> list_all is_AZ g1 \<and> is_AZ b \<and> is_az c \<and> g2 = [b, c] \<and>
        s = g1 @ b # c # rest)"
proof
  assume "acronym_match s = Some (g1, g2, rest)"
  then have "acronym_try (length (takeWhile is_AZ s)) s = Some (g1, g2, rest)"
    by (simp add: acronym_match_def)
  from acronym_try_Some [OF this] obtain j b c where
    j: "0 < j" "j \<le> length (takeWhile is_AZ s)" and g1: "g1 = take j s" and g2: "g2 = [b, c]"
    and bc: "is_AZ b" "is_az c" and d: "drop j s = b # c # rest" by blast
  have "s = take j s @ drop j s" by simp
  with g1 d have s: "s = g1 @ b # c # rest" by simp
  have "take j s = take j (takeWhile is_AZ s @ dropWhile is_AZ s)" by simp
  also have "\<dots> = take j (takeWhile is_AZ s)" using j(2) by (simp only: take_append) simp
  finally have "set g1 \<subseteq> set (takeWhile is_AZ s)" using g1 by (simp add: set_take_subset)
  then have "list_all is_AZ g1" by (auto simp: list_all_iff dest: set_takeWhileD)
  moreover have "g1 \<noteq> []" using j(1) d g1 by (cases s) auto
  ultimately show "\<exists>b c. g1 \<noteq> [] \<and> list_all is_AZ g1 \<and> is_AZ b \<and> is_az c \<and> g2 = [b, c] \<and>
        s = g1 @ b # c # rest" using bc g2 s by blast
next
  assume "\<exists>b c. g1 \<noteq> [] \<and> list_all is_AZ g1 \<and> is_AZ b \<and> is_az c \<and> g2 = [b, c] \<and>
        s = g1 @ b # c # rest"
  then obtain b c where ne: "g1 \<noteq> []" and az: "list_all is_AZ g1" and bc: "is_AZ b" "is_az c"
    and g2: "g2 = [b, c]" and s: "s = g1 @ b # c # rest" by blast
  from bc(2) have nc: "\<not> is_AZ c" using AZ_not_az by blast
  have "takeWhile is_AZ s = (g1 @ [b]) @ takeWhile is_AZ (c # rest)"
    unfolding s using az bc(1) by (simp add: list_all_iff takeWhile_append2)
  with nc have len: "length (takeWhile is_AZ s) = Suc (length g1)" by simp
  have 1: "acronym_try (Suc (length g1)) s = acronym_try (length g1) s"
    using nc unfolding s by (cases rest) simp_all
  from ne obtain k where k: "length g1 = Suc k" by (cases g1) auto
  have "drop (Suc k) s = b # c # rest" unfolding s k [symmetric] by simp
  moreover have "take (Suc k) s = g1" unfolding s k [symmetric] by simp
  ultimately have "acronym_try (Suc k) s = Some (g1, [b, c], rest)" using bc by simp
  with 1 len k g2 show "acronym_match s = Some (g1, g2, rest)" by (simp add: acronym_match_def)
qed

lemma is_sep_SPACE: "is_sep SPACE" by (simp add: class_defs)
lemma is_sepdot_SPACE: "is_sepdot SPACE" by (simp add: class_defs)
lemma is_sep_sepdot: "is_sep c \<Longrightarrow> is_sepdot c" by (auto simp: is_sep_def is_sepdot_def)
lemma is_s_sep: "is_s c \<Longrightarrow> is_sep c" by (simp add: is_sep_def)

lemma kept_cases: "is_kept c \<Longrightarrow> \<not> is_sep c \<Longrightarrow> is_az c \<or> is_AZ c \<or> is_09 c"
  by (auto simp: is_kept_def is_sep_def)

subsection \<open>split_acronyms\<close>

lemma acronym_match_not_AZ: "\<not> is_AZ c \<Longrightarrow> acronym_match (c # cs) = None"
  by (simp add: acronym_match_def)

lemma split_acronyms_None:
  "acronym_match (c # cs) = None \<Longrightarrow> split_acronyms (c # cs) = c # split_acronyms cs"
  by simp

lemma split_acronyms_Some:
  "acronym_match (c # cs) = Some (g1, g2, rest) \<Longrightarrow>
     split_acronyms (c # cs) = g1 @ SPACE # g2 @ split_acronyms rest"
  by simp

lemma split_acronyms_other:
  "\<not> is_AZ c \<Longrightarrow> split_acronyms (c # cs) = c # split_acronyms cs"
  by (simp add: acronym_match_not_AZ)

lemma split_acronyms_match:
  assumes "run \<noteq> []" "list_all is_AZ run" "is_AZ b" "is_az c"
  shows "split_acronyms (run @ b # c # rest) = run @ SPACE # b # c # split_acronyms rest"
proof -
  have m: "acronym_match (run @ b # c # rest) = Some (run, [b, c], rest)"
    using assms by (simp add: acronym_match_iff)
  from assms(1) obtain x xs where "run @ b # c # rest = x # xs" by (cases run) auto
  with m show ?thesis using split_acronyms_Some [of x xs run "[b, c]" rest] by simp
qed

lemma filter_split_acronyms:
  "\<not> Q SPACE \<Longrightarrow> filter Q (split_acronyms s) = filter Q s"
proof (induction s rule: split_acronyms.induct)
  case 1
  then show ?case by simp
next
  case (2 c cs)
  show ?case
  proof (cases "acronym_match (c # cs)")
    case None
    with 2 show ?thesis by simp
  next
    case (Some m)
    obtain g1 g2 rest where m: "m = (g1, g2, rest)" by (cases m) auto
    from Some m have s: "c # cs = g1 @ g2 @ rest"
      by (auto simp: acronym_match_iff)
    from 2(2) [OF Some _ _ 2(3)] m have "filter Q (split_acronyms rest) = filter Q rest"
      by simp
    with Some m 2(3) have "filter Q (split_acronyms (c # cs)) = filter Q (g1 @ g2 @ rest)"
      by (simp del: split_acronyms.simps add: split_acronyms_Some)
    with s show ?thesis by simp
  qed
qed

lemma filter_split_pairs:
  "\<not> Q SPACE \<Longrightarrow> filter Q (split_pairs P s) = filter Q s"
  by (induction P s rule: split_pairs.induct) auto

lemma set_split_acronyms: "set (split_acronyms s) \<subseteq> insert SPACE (set s)"
proof
  fix x assume x: "x \<in> set (split_acronyms s)"
  show "x \<in> insert SPACE (set s)"
  proof (cases "x = SPACE")
    case True
    then show ?thesis by simp
  next
    case False
    with x have "x \<in> set (filter (\<lambda>c. c \<noteq> SPACE) (split_acronyms s))" by simp
    then have "x \<in> set (filter (\<lambda>c. c \<noteq> SPACE) s)" by (simp only: filter_split_acronyms)
    then show ?thesis by simp
  qed
qed

lemma split_acronyms_id: "\<forall>c\<in>set s. \<not> is_AZ c \<Longrightarrow> split_acronyms s = s"
  by (induction s) (simp_all add: acronym_match_not_AZ)

subsection \<open>The words\<close>

lemma kebab_words_eq:
  "kebab_words s = nonempty (split_runs is_sep (filter is_kept
     (map (\<lambda>c. if c = UNDERSCORE then SPACE else c) (split_pairs is_az09 (trim s)))))"
  by (simp add: kebab_words_def Let_def split_collapse [of is_sep, OF is_sep_SPACE])

lemma kebab_words_inv:
  assumes "w \<in> set (kebab_words s)"
  shows "w \<noteq> []" and "\<forall>c\<in>set w. is_az c \<or> is_AZ c \<or> is_09 c" and "set w \<subseteq> set s"
proof -
  let ?X = "filter is_kept
     (map (\<lambda>c. if c = UNDERSCORE then SPACE else c) (split_pairs is_az09 (trim s)))"
  from assms have w: "w \<in> set (split_runs is_sep ?X)" and ne: "w \<noteq> []"
    by (simp_all add: kebab_words_eq nonempty_def)
  show "w \<noteq> []" by (rule ne)
  from split_runs_set [of is_sep ?X] w
  have 1: "\<forall>c\<in>set w. \<not> is_sep c" and 2: "set w \<subseteq> set ?X" by blast+
  show "\<forall>c\<in>set w. is_az c \<or> is_AZ c \<or> is_09 c"
  proof
    fix c assume c: "c \<in> set w"
    with 2 have "is_kept c" by auto
    moreover from c 1 have "\<not> is_sep c" by blast
    ultimately show "is_az c \<or> is_AZ c \<or> is_09 c" by (rule kept_cases)
  qed
  show "set w \<subseteq> set s"
  proof
    fix c assume c: "c \<in> set w"
    with 1 is_sep_SPACE have ns: "c \<noteq> SPACE" by blast
    from c 2 have "c \<in> set (map (\<lambda>c. if c = UNDERSCORE then SPACE else c)
      (split_pairs is_az09 (trim s)))" by auto
    with ns have "c \<in> set (split_pairs is_az09 (trim s))" by (auto split: if_splits)
    with ns have "c \<in> set (trim s)" using set_split_pairs by blast
    then show "c \<in> set s" using set_trim by blast
  qed
qed

lemma dot_words_eq:
  "dot_words str = nonempty (split_runs is_sepdot (split_acronyms (split_pairs is_az str)))"
  by (simp add: dot_words_def Let_def split_collapse [of is_sepdot, OF is_sepdot_SPACE])

lemma dot_words_inv:
  assumes "w \<in> set (dot_words s)"
  shows "w \<noteq> []" and "\<forall>c\<in>set w. \<not> is_sepdot c"
proof -
  from assms have w: "w \<in> set (split_runs is_sepdot (split_acronyms (split_pairs is_az s)))"
    and ne: "w \<noteq> []"
    by (simp_all add: dot_words_eq nonempty_def)
  show "w \<noteq> []" by (rule ne)
  from split_runs_set [of is_sepdot] w show "\<forall>c\<in>set w. \<not> is_sepdot c" by blast
qed

lemma lenient_words_eq:
  "lenient_words U s = split_runs is_sep (toLowerCase U (trim s))"
  by (simp add: lenient_words_def split_collapse [of is_sep, OF is_sep_SPACE])

lemma lenient_words_inv:
  assumes "w \<in> set (lenient_words U s)"
  shows "\<forall>c\<in>set w. \<not> is_sep c"
  using assms split_runs_set [of is_sep] unfolding lenient_words_eq by blast

lemma camel_words_inv:
  assumes "w \<in> set (camel_words s)"
  shows "w \<noteq> []" and "\<forall>c\<in>set w. \<not> is_sep c"
proof -
  from assms obtain word where
    word: "word \<in> set (split_runs is_sep (split_pairs is_az s))"
    and w: "w \<in> set (nonempty (splitCamel word))"
    by (auto simp: camel_words_def nonempty_def)
  from w show "w \<noteq> []" by (simp add: nonempty_def)
  from w have "w \<in> set (split_at SPACE (split_pairs is_az09 (split_acronyms word)))"
    by (simp add: nonempty_def splitCamel_def)
  with split_at_set [of SPACE] have nsp: "SPACE \<notin> set w"
    and sub: "set w \<subseteq> set (split_pairs is_az09 (split_acronyms word))" by blast+
  from word split_runs_set [of is_sep] have nosep: "\<forall>c\<in>set word. \<not> is_sep c" by blast
  show "\<forall>c\<in>set w. \<not> is_sep c"
  proof
    fix c assume c: "c \<in> set w"
    with nsp have "c \<noteq> SPACE" by blast
    moreover from c sub have "c \<in> set (split_pairs is_az09 (split_acronyms word))" by blast
    ultimately have "c \<in> set (split_acronyms word)" using set_split_pairs by blast
    with \<open>c \<noteq> SPACE\<close> have "c \<in> set word" using set_split_acronyms by blast
    with nosep show "\<not> is_sep c" by blast
  qed
qed

subsection \<open>Strings made by join\<close>

lemma adjacent_append:
  "adjacent d (u @ v) \<longleftrightarrow>
     adjacent d u \<or> adjacent d v \<or> (u \<noteq> [] \<and> v \<noteq> [] \<and> last u = d \<and> hd v = d)"
proof (induction d u rule: adjacent.induct)
  case (1 d a b cs)
  then show ?case by auto
next
  case (2 d a)
  then show ?case by (cases v) auto
next
  case (3 d)
  then show ?case by simp
qed

lemma adjacent_notin: "d \<notin> set w \<Longrightarrow> \<not> adjacent d w"
  by (induction d w rule: adjacent.induct) auto

lemma well_joined_join:
  "\<forall>w\<in>set ws. w \<noteq> [] \<and> d \<notin> set w \<Longrightarrow> well_joined d (join [d] ws)"
proof (induction "[d]" ws rule: join.induct)
  case 1
  then show ?case by (simp add: well_joined_def)
next
  case (2 w)
  then have "w \<noteq> []" "d \<notin> set w" by simp_all
  then have "hd w \<noteq> d" "last w \<noteq> d" "\<not> adjacent d w"
    using hd_in_set [of w] last_in_set [of w] adjacent_notin [of d w] by auto
  then show ?case by (simp add: well_joined_def)
next
  case (3 w v va)
  let ?r = "join [d] (v # va)"
  from 3 have ih: "well_joined d ?r" by simp
  from 3(2) have "v \<noteq> []" by simp
  then have rne: "?r \<noteq> []" by (cases va) simp_all
  from 3(2) have w: "w \<noteq> []" "d \<notin> set w" by simp_all
  then have ww: "hd w \<noteq> d" "last w \<noteq> d" "\<not> adjacent d w"
    using hd_in_set [of w] last_in_set [of w] adjacent_notin [of d w] by auto
  from ih rne have r: "hd ?r \<noteq> d" "last ?r \<noteq> d" "\<not> adjacent d ?r"
    by (simp_all add: well_joined_def)
  have "\<not> adjacent d (d # ?r)" using r rne by (cases ?r) auto
  with ww w have "\<not> adjacent d (w @ d # ?r)" by (simp add: adjacent_append)
  moreover have "join [d] (w # v # va) = w @ d # ?r" by simp
  ultimately show ?case using w ww r rne by (simp add: well_joined_def)
qed

subsection \<open>Case conversion of ASCII strings and the sample table\<close>

lemma upper_az: "is_az c \<Longrightarrow> is_AZ (ascii_upper c)"
  unfolding class_defs ascii_upper_def by (auto simp: word_le_nat_alt unat_sub_if')

lemma toLowerCase_ascii: "list_all is_ascii s \<Longrightarrow> toLowerCase U s = map ascii_lower s"
  by (simp add: toLowerCase_def)

lemma toLowerCase_tables: "toLowerCase ascii_tables s = map ascii_lower s"
  by (simp add: toLowerCase_def ascii_tables_def)

lemma toUpperCase_tables: "toUpperCase ascii_tables s = map ascii_upper s"
  by (simp add: toUpperCase_def ascii_tables_def)

lemma sep_lower: "is_sepdot (ascii_lower c) \<Longrightarrow> ascii_lower c = c"
  using lower_AZ [of c] az_not_s [of "ascii_lower c"] by (auto simp: ascii_lower_def)

lemma sep_upper: "is_sepdot (ascii_upper c) \<Longrightarrow> ascii_upper c = c"
  using upper_az [of c] AZ_not_s [of "ascii_upper c"] by (auto simp: ascii_upper_def)

lemma tables_lower_delims: "no_new_delims (toLowerCase ascii_tables)"
  unfolding no_new_delims_def toLowerCase_tables using sep_lower by force

lemma tables_upper_delims: "no_new_delims (toUpperCase ascii_tables)"
  unfolding no_new_delims_def toUpperCase_tables using sep_upper by force

lemma tables_nonempty: "keeps_nonempty (toLowerCase ascii_tables)"
  by (simp add: keeps_nonempty_def toLowerCase_tables)

lemma tables_no_capitals: "no_capitals (toLowerCase ascii_tables)"
  by (simp add: no_capitals_def toLowerCase_tables list_all_iff lower_not_AZ)

lemma tables_idempotent: "idempotent (toLowerCase ascii_tables)"
  by (simp add: idempotent_def toLowerCase_tables lower_other lower_not_AZ)

lemma tables_fixes: "fixes_separators (toLowerCase ascii_tables)"
proof -
  have "ascii_lower c = c" if "is_sep c" for c
    using that AZ_not_s [of c] is_sep_sepdot [of c] lower_other [of c] by blast
  then show ?thesis
    by (simp add: fixes_separators_def toLowerCase_tables list_all_iff map_idI)
qed

subsection \<open>The result of toKebabCase\<close>

lemma alnum_ascii: "is_az c \<or> is_AZ c \<or> is_09 c \<Longrightarrow> is_ascii c"
  by (auto simp: class_defs word_le_nat_alt word_less_nat_alt)

lemma alnum_lower: "is_az c \<or> is_AZ c \<or> is_09 c \<Longrightarrow> is_az09 (ascii_lower c)"
  using lower_AZ [of c] by (auto simp: is_az09_def ascii_lower_def)

lemma az09_not_sep: "is_az09 c \<Longrightarrow> \<not> is_sepdot c"
  using az_not_s d09_not_s by (auto simp: is_az09_def)

lemma kebab_words_blank: "trim s = [] \<Longrightarrow> kebab_words s = []"
  by (simp add: kebab_words_def nonempty_def)

lemma kebab_result:
  "toKebabCase U (VString s) = Inr (join [HYPHEN] (map (map ascii_lower) (kebab_words s)))"
proof -
  let ?ws = "kebab_words s"
  have "is_ascii c" if "c \<in> set (join [HYPHEN] ?ws)" for c
  proof -
    from that set_join [of "[HYPHEN]" ?ws]
    consider "c = HYPHEN" | w where "w \<in> set ?ws" "c \<in> set w" by auto
    then show ?thesis
    proof cases
      case 1
      then show ?thesis by (simp add: class_defs)
    next
      case 2
      with kebab_words_inv(2) [of w s] show ?thesis using alnum_ascii by blast
    qed
  qed
  then have "toLowerCase U (join [HYPHEN] ?ws) = map ascii_lower (join [HYPHEN] ?ws)"
    by (simp add: toLowerCase_ascii list_all_iff)
  also have "\<dots> = join [HYPHEN] (map (map ascii_lower) ?ws)"
    by (simp add: map_join ascii_lower_def class_defs)
  finally show ?thesis
    by (auto simp: toKebabCase_def kebab_words_blank Let_def)
qed

lemma kebab_lowered_words:
  assumes "w \<in> set (map (map ascii_lower) (kebab_words s))"
  shows "w \<noteq> []" and "\<forall>c\<in>set w. is_az09 c"
proof -
  from assms obtain w0 where w0: "w0 \<in> set (kebab_words s)" and w: "w = map ascii_lower w0"
    by auto
  from kebab_words_inv(1) [OF w0] w show "w \<noteq> []" by simp
  from kebab_words_inv(2) [OF w0] w show "\<forall>c\<in>set w. is_az09 c"
    using alnum_lower by auto
qed

subsection \<open>The shape of the results\<close>

lemma in_set_join: "c \<in> set (join sep ws) \<Longrightarrow> c \<in> set sep \<or> (\<exists>w\<in>set ws. c \<in> set w)"
  using set_join [of sep ws] by auto

lemma kebab_shape:
  "\<exists>r. toKebabCase U v = Inr r \<and>
     list_all (\<lambda>c. is_az c \<or> is_09 c \<or> c = HYPHEN) r \<and> well_joined HYPHEN r"
proof (cases v)
  case (VOther t)
  then show ?thesis by (simp add: toKebabCase_def well_joined_def)
next
  case (VString s)
  let ?ws = "map (map ascii_lower) (kebab_words s)"
  have ws: "\<forall>w\<in>set ?ws. w \<noteq> [] \<and> HYPHEN \<notin> set w"
  proof
    fix w assume w: "w \<in> set ?ws"
    have "\<not> is_az09 HYPHEN" by (simp add: class_defs)
    with kebab_lowered_words [OF w] show "w \<noteq> [] \<and> HYPHEN \<notin> set w" by blast
  qed
  then have 1: "well_joined HYPHEN (join [HYPHEN] ?ws)" by (rule well_joined_join)
  have "is_az c \<or> is_09 c \<or> c = HYPHEN" if "c \<in> set (join [HYPHEN] ?ws)" for c
  proof -
    from in_set_join [OF that]
    consider "c = HYPHEN" | w where "w \<in> set ?ws" "c \<in> set w" by fastforce
    then show ?thesis
    proof cases
      case 1
      then show ?thesis by simp
    next
      case 2
      with kebab_lowered_words(2) [of w s] show ?thesis by (auto simp: is_az09_def)
    qed
  qed
  then have "list_all (\<lambda>c. is_az c \<or> is_09 c \<or> c = HYPHEN) (join [HYPHEN] ?ws)"
    by (simp add: list_all_iff)
  with 1 VString show ?thesis by (simp add: kebab_result)
qed

lemma dot_result:
  "toDotCase U (VString s) = Inr (join [DOT] (map (toLowerCase U) (dot_words (trim s))))"
proof -
  have "dot_words (trim s) = []" if "trim s = [] \<or> only is_sepdot (trim s)"
  proof -
    have "w = []" if w: "w \<in> set (split_runs is_sepdot (split_acronyms (split_pairs is_az (trim s))))" for w
    proof (rule ccontr)
      assume "w \<noteq> []"
      then obtain c where c: "c \<in> set w" by (cases w) auto
      with split_runs_set [of is_sepdot] w have ns: "\<not> is_sepdot c"
        and "c \<in> set (split_acronyms (split_pairs is_az (trim s)))" by blast+
      moreover from ns is_sepdot_SPACE have "c \<noteq> SPACE" by blast
      ultimately have "c \<in> set (trim s)"
        using set_split_acronyms set_split_pairs by blast
      with \<open>trim s = [] \<or> only is_sepdot (trim s)\<close> ns show False
        by (auto simp: only_def list_all_iff)
    qed
    then show ?thesis by (auto simp: dot_words_eq nonempty_def filter_empty_conv)
  qed
  then show ?thesis by (auto simp: toDotCase_def Let_def)
qed

lemma dot_shape:
  assumes "keeps_nonempty (toLowerCase U)" "no_new_delims (toLowerCase U)"
  shows "\<exists>r. toDotCase U (VString s) = Inr r \<and> well_joined DOT r"
proof -
  let ?ws = "map (toLowerCase U) (dot_words (trim s))"
  have "\<forall>w\<in>set ?ws. w \<noteq> [] \<and> DOT \<notin> set w"
  proof
    fix w assume "w \<in> set ?ws"
    then obtain w0 where w0: "w0 \<in> set (dot_words (trim s))" and w: "w = toLowerCase U w0"
      by auto
    from dot_words_inv [OF w0] have ne: "w0 \<noteq> []" and ns: "\<forall>c\<in>set w0. \<not> is_sepdot c"
      by blast+
    have d: "is_sepdot DOT" by (simp add: is_sepdot_def)
    from ne assms(1) w have "w \<noteq> []" by (simp add: keeps_nonempty_def)
    moreover have "DOT \<notin> set w"
    proof
      assume "DOT \<in> set w"
      with assms(2) d w have "DOT \<in> set w0" unfolding no_new_delims_def by blast
      with ns d show False by blast
    qed
    ultimately show "w \<noteq> [] \<and> DOT \<notin> set w" ..
  qed
  then have "well_joined DOT (join [DOT] ?ws)" by (rule well_joined_join)
  then show ?thesis by (simp add: dot_result)
qed

lemma sep_char: "is_s c \<or> c = UNDERSCORE \<Longrightarrow> is_sep c \<and> is_sepdot c"
  by (auto simp: is_sep_def is_sepdot_def)

lemma camel_word_chars:
  assumes "no_new_delims (toLowerCase U)" "no_new_delims (toUpperCase U)"
    and "c \<in> set (camel_word U pa (i, w))" "is_sepdot c"
  shows "c \<in> set w"
proof -
  have low: "c \<in> set w" if "c \<in> set (toLowerCase U w)"
    using that assms(1,4) unfolding no_new_delims_def by blast
  have cap: "c \<in> set w" if "c \<in> set (toUpperCase U (take 1 (toLowerCase U w)) @ drop 1 (toLowerCase U w))"
  proof -
    from that consider "c \<in> set (toUpperCase U (take 1 (toLowerCase U w)))"
      | "c \<in> set (drop 1 (toLowerCase U w))" by auto
    then have "c \<in> set (toLowerCase U w)"
    proof cases
      case 1
      with assms(2,4) have "c \<in> set (take 1 (toLowerCase U w))"
        unfolding no_new_delims_def by blast
      then show ?thesis by (rule in_set_takeD)
    next
      case 2
      then show ?thesis by (rule in_set_dropD)
    qed
    then show ?thesis by (rule low)
  qed
  from assms(3) low cap show ?thesis
    by (auto simp: camel_word_def Let_def split: if_splits)
qed

lemma camel_result:
  "toCamelCase U (OValue opts) (VString s) =
     Inr (join [] (map (camel_word U (preserve opts)) (enumerate 0 (camel_words (trim s)))))
   \<or> toCamelCase U (OValue opts) (VString s) = Inr []"
  by (auto simp: toCamelCase_value Let_def)

lemma kebab_chars:
  "\<exists>r. toKebabCase U (VString s) = Inr r \<and>
     list_all (\<lambda>c. \<not> is_s c \<and> c \<noteq> UNDERSCORE \<and> \<not> is_AZ c) r"
proof -
  from kebab_shape [of U "VString s"] obtain r where
    r: "toKebabCase U (VString s) = Inr r"
    and a: "list_all (\<lambda>c. is_az c \<or> is_09 c \<or> c = HYPHEN) r" by blast
  have "\<not> is_s c \<and> c \<noteq> UNDERSCORE \<and> \<not> is_AZ c" if "is_az c \<or> is_09 c \<or> c = HYPHEN" for c
    using that by (auto simp: class_defs word_le_nat_alt)
  with a have "list_all (\<lambda>c. \<not> is_s c \<and> c \<noteq> UNDERSCORE \<and> \<not> is_AZ c) r"
    by (auto simp: list_all_iff)
  with r show ?thesis by blast
qed

lemma dot_chars:
  assumes "no_new_delims (toLowerCase U)" "no_capitals (toLowerCase U)"
  shows "\<exists>r. toDotCase U (VString s) = Inr r \<and>
     list_all (\<lambda>c. \<not> is_s c \<and> c \<noteq> UNDERSCORE \<and> \<not> is_AZ c) r"
proof -
  let ?ws = "map (toLowerCase U) (dot_words (trim s))"
  have "\<not> is_s c \<and> c \<noteq> UNDERSCORE \<and> \<not> is_AZ c" if "c \<in> set (join [DOT] ?ws)" for c
  proof -
    from in_set_join [OF that]
    consider "c = DOT" | w where "w \<in> set ?ws" "c \<in> set w" by fastforce
    then show ?thesis
    proof cases
      case 1
      then show ?thesis by (simp add: class_defs)
    next
      case 2
      then obtain w0 where w0: "w0 \<in> set (dot_words (trim s))" and w: "w = toLowerCase U w0"
        by auto
      from assms(2) w 2(2) have "\<not> is_AZ c" by (auto simp: no_capitals_def list_all_iff)
      moreover have "\<not> (is_s c \<or> c = UNDERSCORE)"
      proof
        assume "is_s c \<or> c = UNDERSCORE"
        then have sd: "is_sepdot c" using sep_char by blast
        with assms(1) w 2(2) have "c \<in> set w0" unfolding no_new_delims_def by blast
        with dot_words_inv(2) [OF w0] sd show False by blast
      qed
      ultimately show ?thesis by blast
    qed
  qed
  then show ?thesis by (simp add: dot_result list_all_iff)
qed

lemma camel_chars:
  assumes "no_new_delims (toLowerCase U)" "no_new_delims (toUpperCase U)"
  shows "\<exists>r. toCamelCase U (OValue opts) (VString s) = Inr r \<and>
     list_all (\<lambda>c. \<not> is_s c \<and> c \<noteq> UNDERSCORE) r"
proof -
  let ?ws = "camel_words (trim s)"
  let ?r = "join [] (map (camel_word U (preserve opts)) (enumerate 0 ?ws))"
  have "\<not> is_s c \<and> c \<noteq> UNDERSCORE" if "c \<in> set ?r" for c
  proof -
    from in_set_join [OF that] obtain i w where iw: "(i, w) \<in> set (enumerate 0 ?ws)"
      and c: "c \<in> set (camel_word U (preserve opts) (i, w))" by auto
    from iw have w: "w \<in> set ?ws" by (auto simp: in_set_enumerate_eq)
    have "\<not> (is_s c \<or> c = UNDERSCORE)"
    proof
      assume a: "is_s c \<or> c = UNDERSCORE"
      then have "is_sepdot c" using sep_char by blast
      with assms c have "c \<in> set w" by (rule camel_word_chars)
      with camel_words_inv(2) [OF w] a sep_char show False by blast
    qed
    then show ?thesis by blast
  qed
  then have "list_all (\<lambda>c. \<not> is_s c \<and> c \<noteq> UNDERSCORE) ?r" by (simp add: list_all_iff)
  with camel_result [of U opts s] show ?thesis by auto
qed

lemma lenient_result:
  "toCamelCase_lenient U (VString s) =
     Inr (concat (hd (lenient_words U s) # map (capitalise U) (tl (lenient_words U s))))"
proof -
  obtain w ws where "lenient_words U s = w # ws"
    using split_runs_ne [of is_sep] by (cases "lenient_words U s") (auto simp: lenient_words_eq)
  then show ?thesis by (simp add: toCamelCase_lenient_def capitalise_loop_eq join_Nil_sep)
qed

lemma lenient_chars:
  assumes "no_new_delims (toUpperCase U)"
  shows "\<exists>r. toCamelCase_lenient U (VString s) = Inr r \<and>
     list_all (\<lambda>c. \<not> is_s c \<and> c \<noteq> UNDERSCORE) r"
proof -
  let ?ws = "lenient_words U s"
  obtain w ws where ws: "?ws = w # ws"
    using split_runs_ne [of is_sep] by (cases ?ws) (auto simp: lenient_words_eq)
  have cap: "\<not> is_sep c" if "c \<in> set (capitalise U x)" "x \<in> set ?ws" for c x
  proof
    assume sc: "is_sep c"
    then have sd: "is_sepdot c" by (rule is_sep_sepdot)
    from that(1) consider "c \<in> set x" | "c \<in> set (toUpperCase U (take 1 x))" | "c \<in> set (drop 1 x)"
      by (auto simp: capitalise_def split: if_splits)
    then have "c \<in> set x"
    proof cases
      case 1
      then show ?thesis .
    next
      case 2
      with assms sd have "c \<in> set (take 1 x)" unfolding no_new_delims_def by blast
      then show ?thesis by (rule in_set_takeD)
    next
      case 3
      then show ?thesis by (rule in_set_dropD)
    qed
    with lenient_words_inv [OF that(2)] sc show False by blast
  qed
  have "\<not> is_s c \<and> c \<noteq> UNDERSCORE" if "c \<in> set (concat (w # map (capitalise U) ws))" for c
  proof -
    from that consider "c \<in> set w" | x where "x \<in> set ws" "c \<in> set (capitalise U x)" by auto
    then have "\<not> is_sep c"
    proof cases
      case 1
      with lenient_words_inv [of w U s] ws show ?thesis by simp
    next
      case 2
      with cap [of c x] ws show ?thesis by simp
    qed
    then show ?thesis using sep_char by blast
  qed
  then show ?thesis using ws by (simp add: lenient_result list_all_iff)
qed

lemma list_all_trim: "list_all P s \<Longrightarrow> list_all P (trim s)"
  using set_trim [of s] by (auto simp: list_all_iff)

lemma kebab_blank:
  assumes "list_all (\<lambda>c. \<not> (is_az c \<or> is_AZ c \<or> is_09 c)) s"
  shows "toKebabCase U (VString s) = Inr []"
proof -
  have "kebab_words s = []"
  proof (rule ccontr)
    assume "kebab_words s \<noteq> []"
    then obtain w where w: "w \<in> set (kebab_words s)" by (cases "kebab_words s") auto
    from kebab_words_inv [OF w] have "hd w \<in> set w" "set w \<subseteq> set s"
      and "\<forall>c\<in>set w. is_az c \<or> is_AZ c \<or> is_09 c" by simp_all
    with assms show False by (auto simp: list_all_iff)
  qed
  then show ?thesis by (simp add: kebab_result)
qed

lemma camel_blank:
  assumes "list_all is_sep s"
  shows "toCamelCase U (OValue opts) (VString s) = Inr []"
  using list_all_trim [OF assms] by (simp add: toCamelCase_value only_def)

lemma dot_blank:
  assumes "list_all is_sepdot s"
  shows "toDotCase U (VString s) = Inr []"
  using list_all_trim [OF assms] by (simp add: toDotCase_def only_def)

lemma lenient_blank:
  assumes "list_all is_sep s" "fixes_separators (toLowerCase U)"
  shows "toCamelCase_lenient U (VString s) = Inr []"
proof -
  let ?t = "trim s"
  from assms(1) have t: "list_all is_sep ?t" by (rule list_all_trim)
  with assms(2) have "toLowerCase U ?t = ?t" by (simp add: fixes_separators_def)
  then have ws: "lenient_words U s = split_runs is_sep ?t" by (simp add: lenient_words_eq)
  have e: "w = []" if "w \<in> set (lenient_words U s)" for w
  proof (rule ccontr)
    assume "w \<noteq> []"
    then have "hd w \<in> set w" by simp
    with that split_runs_set [of is_sep ?t] ws
    have "\<not> is_sep (hd w)" "hd w \<in> set ?t" by auto
    with t show False by (auto simp: list_all_iff)
  qed
  obtain w ws' where c: "lenient_words U s = w # ws'"
    using split_runs_ne [of is_sep] by (cases "lenient_words U s") (auto simp: lenient_words_eq)
  with e have "w = []" "\<forall>x\<in>set ws'. x = []" by simp_all
  then have "concat (w # map (capitalise U) ws') = []"
    by (simp add: capitalise_def)
  with c show ?thesis by (simp add: lenient_result)
qed

subsection \<open>Splitting a joined string\<close>

lemma split_runs_none: "\<forall>c\<in>set w. \<not> P c \<Longrightarrow> split_runs P w = [w]"
  by (induction w) (simp_all add: Let_def)

lemma split_runs_word:
  assumes "\<forall>c\<in>set w. \<not> P c" "P d" "rest = [] \<or> \<not> P (hd rest)"
  shows "split_runs P (w @ d # rest) = w # split_runs P rest"
  using assms(1)
proof (induction w)
  case Nil
  from assms(3) have "dropWhile P rest = rest" by (cases rest) auto
  with assms(2) show ?case by simp
next
  case (Cons c w)
  then show ?case by (simp add: Let_def)
qed

lemma hd_join: "ws \<noteq> [] \<Longrightarrow> hd ws \<noteq> [] \<Longrightarrow> hd (join sep ws) = hd (hd ws)"
  by (induction sep ws rule: join.induct) auto

lemma last_join:
  "ws \<noteq> [] \<Longrightarrow> \<forall>w\<in>set ws. w \<noteq> [] \<Longrightarrow> last (join sep ws) = last (last ws)"
proof (induction sep ws rule: join.induct)
  case (3 sep w v va)
  then have "join sep (v # va) \<noteq> []" by (cases va) auto
  with 3 show ?case by simp
qed simp_all

lemma split_runs_join:
  assumes "P d"
  shows "ws \<noteq> [] \<Longrightarrow> \<forall>w\<in>set ws. w \<noteq> [] \<and> (\<forall>c\<in>set w. \<not> P c) \<Longrightarrow>
    split_runs P (join [d] ws) = ws"
proof (induction "[d]" ws rule: join.induct)
  case 1
  then show ?case by simp
next
  case (2 w)
  then show ?case by (simp add: split_runs_none)
next
  case (3 w v va)
  let ?r = "join [d] (v # va)"
  from 3 have ih: "split_runs P ?r = v # va" by simp
  from 3(3) have v: "v \<noteq> []" "\<not> P (hd v)" by simp_all
  then have "hd ?r = hd v" using hd_join [of "v # va" "[d]"] by simp
  with v have "?r = [] \<or> \<not> P (hd ?r)" by simp
  moreover from 3(3) have "\<forall>c\<in>set w. \<not> P c" by simp
  ultimately have "split_runs P (w @ d # ?r) = w # split_runs P ?r"
    using assms by (intro split_runs_word) auto
  with ih show ?case by simp
qed

lemma joined_ends:
  assumes "ws \<noteq> []" "\<forall>w\<in>set ws. w \<noteq> [] \<and> (\<forall>c\<in>set w. \<not> P c)"
  shows "join sep ws \<noteq> []" "\<not> P (hd (join sep ws))" "\<not> P (last (join sep ws))"
proof -
  from assms(1) have m: "hd ws \<in> set ws" "last ws \<in> set ws" by simp_all
  with assms(2) have ne: "hd ws \<noteq> []" "last ws \<noteq> []" by blast+
  from assms show "join sep ws \<noteq> []" by (simp add: join_eq_Nil)
  from ne have "hd (hd ws) \<in> set (hd ws)" "last (last ws) \<in> set (last ws)" by simp_all
  with assms(2) m have "\<not> P (hd (hd ws))" "\<not> P (last (last ws))" by blast+
  moreover have "hd (join sep ws) = hd (hd ws)" using assms(1) ne(1) by (rule hd_join)
  moreover have "last (join sep ws) = last (last ws)" using assms(1) assms(2) by (simp add: last_join)
  ultimately show "\<not> P (hd (join sep ws))" "\<not> P (last (join sep ws))" by simp_all
qed

lemma trim_join:
  assumes "ws \<noteq> []" "\<forall>w\<in>set ws. w \<noteq> [] \<and> (\<forall>c\<in>set w. \<not> is_s c)"
  shows "trim (join sep ws) = join sep ws"
  using joined_ends [OF assms] by (rule trim_id)

subsection \<open>Applying a function to its own result\<close>

lemma kebab_words_joined:
  assumes "ws \<noteq> []" "\<forall>w\<in>set ws. w \<noteq> [] \<and> (\<forall>c\<in>set w. is_az09 c)"
  shows "kebab_words (join [HYPHEN] ws) = ws"
proof -
  let ?r = "join [HYPHEN] ws"
  have ch: "is_az09 c \<or> c = HYPHEN" if "c \<in> set ?r" for c
    using in_set_join [OF that] assms(2) by auto
  have nosep: "\<forall>w\<in>set ws. w \<noteq> [] \<and> (\<forall>c\<in>set w. \<not> is_sep c)"
    using assms(2) az09_not_sep is_sep_sepdot by blast
  then have "\<forall>w\<in>set ws. w \<noteq> [] \<and> (\<forall>c\<in>set w. \<not> is_s c)" using is_s_sep by blast
  with assms(1) have 1: "trim ?r = ?r" by (rule trim_join)
  have "\<not> is_AZ c" if "c \<in> set ?r" for c
    using ch [OF that] by (auto simp: class_defs word_le_nat_alt)
  then have 2: "split_pairs is_az09 ?r = ?r" by (simp add: split_pairs_id)
  have "c \<noteq> UNDERSCORE" if "c \<in> set ?r" for c
    using ch [OF that] by (auto simp: class_defs word_le_nat_alt)
  then have 3: "map (\<lambda>c. if c = UNDERSCORE then SPACE else c) ?r = ?r"
    by (simp add: map_idI)
  have "is_kept c" if "c \<in> set ?r" for c
    using ch [OF that] by (auto simp: is_kept_def is_az09_def)
  then have 4: "filter is_kept ?r = ?r" by (simp add: filter_id_conv)
  have "is_sep HYPHEN" by (simp add: is_sep_def)
  then have 5: "split_runs is_sep ?r = ws" using assms(1) nosep by (rule split_runs_join)
  from assms(2) have 6: "nonempty ws = ws" by (simp add: nonempty_def filter_id_conv)
  show ?thesis unfolding kebab_words_eq 1 2 3 4 5 6 ..
qed

lemma kebab_idempotent:
  "\<exists>r. toKebabCase U (VString s) = Inr r \<and> toKebabCase U (VString r) = Inr r"
proof -
  let ?ws = "map (map ascii_lower) (kebab_words s)"
  let ?r = "join [HYPHEN] ?ws"
  have ws: "\<forall>w\<in>set ?ws. w \<noteq> [] \<and> (\<forall>c\<in>set w. is_az09 c)"
    using kebab_lowered_words by blast
  have "toKebabCase U (VString ?r) = Inr ?r"
  proof (cases "?ws = []")
    case True
    then have "?r = []" by simp
    moreover have "kebab_words [] = []"
      by (rule kebab_words_blank) (simp add: trim_def)
    ultimately show ?thesis by (simp add: kebab_result)
  next
    case False
    then have k: "kebab_words ?r = ?ws" using ws by (rule kebab_words_joined)
    have "ascii_lower c = c" if "is_az09 c" for c
      using that AZ_not_az [of c] AZ_not_09 [of c] by (auto simp: is_az09_def ascii_lower_def)
    with ws have "map (map ascii_lower) ?ws = ?ws"
      by (intro map_idI) auto
    with k show ?thesis by (simp only: kebab_result)
  qed
  then show ?thesis by (simp add: kebab_result)
qed

lemma dot_words_joined:
  assumes "ws \<noteq> []"
    "\<forall>w\<in>set ws. w \<noteq> [] \<and> (\<forall>c\<in>set w. \<not> is_sepdot c \<and> \<not> is_AZ c)"
  shows "trim (join [DOT] ws) = join [DOT] ws" and "dot_words (join [DOT] ws) = ws"
proof -
  let ?r = "join [DOT] ws"
  have nosep: "\<forall>w\<in>set ws. w \<noteq> [] \<and> (\<forall>c\<in>set w. \<not> is_sepdot c)" using assms(2) by blast
  have "\<forall>w\<in>set ws. w \<noteq> [] \<and> (\<forall>c\<in>set w. \<not> is_s c)"
    using assms(2) is_s_sep is_sep_sepdot by blast
  with assms(1) show "trim ?r = ?r" by (rule trim_join)
  have "\<not> is_AZ DOT" by (simp add: class_defs)
  then have az: "\<forall>c\<in>set ?r. \<not> is_AZ c" using in_set_join [of _ "[DOT]" ws] assms(2) by auto
  then have 1: "split_pairs is_az ?r = ?r" by (rule split_pairs_id)
  from az have 2: "split_acronyms ?r = ?r" by (rule split_acronyms_id)
  have "is_sepdot DOT" by (simp add: is_sepdot_def)
  then have 3: "split_runs is_sepdot ?r = ws" using assms(1) nosep by (rule split_runs_join)
  from assms(2) have 4: "nonempty ws = ws" by (simp add: nonempty_def filter_id_conv)
  show "dot_words ?r = ws" unfolding dot_words_eq 1 2 3 4 ..
qed

lemma dot_idempotent:
  assumes "idempotent (toLowerCase U)" "keeps_nonempty (toLowerCase U)"
    "no_new_delims (toLowerCase U)" "no_capitals (toLowerCase U)"
  shows "\<exists>r. toDotCase U (VString s) = Inr r \<and> toDotCase U (VString r) = Inr r"
proof -
  let ?ws = "map (toLowerCase U) (dot_words (trim s))"
  let ?r = "join [DOT] ?ws"
  have ws: "w \<noteq> [] \<and> (\<forall>c\<in>set w. \<not> is_sepdot c \<and> \<not> is_AZ c)" if "w \<in> set ?ws" for w
  proof -
    from that obtain w0 where w0: "w0 \<in> set (dot_words (trim s))" and w: "w = toLowerCase U w0"
      by auto
    from dot_words_inv [OF w0] have ne: "w0 \<noteq> []" and ns: "\<forall>c\<in>set w0. \<not> is_sepdot c"
      by blast+
    from ne assms(2) w have "w \<noteq> []" by (simp add: keeps_nonempty_def)
    moreover have "\<not> is_sepdot c" if "c \<in> set w" for c
      using that assms(3) w ns unfolding no_new_delims_def by blast
    moreover have "\<not> is_AZ c" if "c \<in> set w" for c
      using that assms(4) w by (auto simp: no_capitals_def list_all_iff)
    ultimately show ?thesis by blast
  qed
  have fixed: "map (toLowerCase U) ?ws = ?ws"
    using assms(1) by (simp add: idempotent_def)
  have "toDotCase U (VString ?r) = Inr ?r"
  proof (cases "?ws = []")
    case True
    then have "?r = []" by simp
    then show ?thesis by (simp add: toDotCase_def trim_def)
  next
    case False
    from dot_words_joined [OF False] ws
    have "trim ?r = ?r" "dot_words ?r = ?ws" by blast+
    with fixed show ?thesis by (simp only: dot_result)
  qed
  then show ?thesis by (simp add: dot_result)
qed

subsection \<open>Cutting split_pairs\<close>

lemma split_pairs_Cons_other: "\<not> P a \<Longrightarrow> split_pairs P (a # w) = a # split_pairs P w"
  by (cases w) simp_all

lemma split_pairs_cut_after:
  "\<not> P a \<Longrightarrow> split_pairs P (u @ a # w) = split_pairs P (u @ [a]) @ split_pairs P w"
proof (induction u rule: induct_list012)
  case 1
  then show ?case by (simp add: split_pairs_Cons_other)
next
  case (2 c)
  then show ?case by (simp add: split_pairs_Cons_other)
next
  case (3 c d u)
  then show ?case by simp
qed

lemma split_pairs_cut_before:
  "\<not> is_AZ x \<Longrightarrow> split_pairs P (u @ x # w) = split_pairs P u @ split_pairs P (x # w)"
proof (induction u rule: induct_list012)
  case 1
  then show ?case by simp
next
  case (2 c)
  then show ?case by simp
next
  case (3 c d u)
  then show ?case by simp
qed

lemma split_pairs_neutral:
  assumes "\<not> P x" "\<not> is_AZ x"
  shows "split_pairs P (u @ x # w) = split_pairs P u @ x # split_pairs P w"
  using split_pairs_cut_before [of x P u w] split_pairs_Cons_other [of P x w] assms
  by simp

lemma split_pairs_pair:
  assumes "P a" "is_AZ b" "\<not> is_AZ a" "\<not> P b" "\<not> P SPACE"
  shows "split_pairs P (u @ a # b # v) = split_pairs P (u @ a # SPACE # b # v)"
proof -
  have sp: "\<not> is_AZ SPACE" by (simp add: class_defs)
  have "split_pairs P (a # b # v) = a # SPACE # b # split_pairs P v"
    using assms by simp
  moreover have "split_pairs P (a # SPACE # b # v) = a # SPACE # b # split_pairs P v"
    using assms sp by (simp add: split_pairs_Cons_other)
  ultimately show ?thesis
    using split_pairs_cut_before [of a P u] assms(3) by simp
qed

lemma split_pairs_eq_Nil: "split_pairs P s = [] \<longleftrightarrow> s = []"
  by (induction P s rule: split_pairs.induct) auto

lemma last_split_pairs: "s \<noteq> [] \<Longrightarrow> last (split_pairs P s) = last s"
  by (induction P s rule: split_pairs.induct) (auto simp: split_pairs_eq_Nil)

lemma hd_split_pairs: "hd (split_pairs P s) = hd s"
  by (induction P s rule: split_pairs.induct) auto

subsection \<open>The match of an acronym, computed\<close>

lemma acronym_match_eq:
  "acronym_match s =
     (case dropWhile is_AZ s of
        [] \<Rightarrow> None
      | c # rest \<Rightarrow>
          if is_az c \<and> 2 \<le> length (takeWhile is_AZ s)
          then Some (butlast (takeWhile is_AZ s), [last (takeWhile is_AZ s), c], rest)
          else None)"
proof -
  let ?run = "takeWhile is_AZ s" and ?t = "dropWhile is_AZ s"
  have s: "s = ?run @ ?t" by simp
  have run: "list_all is_AZ ?run" by (auto simp: list_all_iff dest: set_takeWhileD)
  show ?thesis
  proof (cases "\<exists>c rest. ?t = c # rest \<and> is_az c \<and> 2 \<le> length ?run")
    case True
    then obtain c rest where t: "?t = c # rest" and c: "is_az c" and l: "2 \<le> length ?run"
      by blast
    from l have ne: "?run \<noteq> []" by auto
    from l have bl: "butlast ?run \<noteq> []" by (cases ?run rule: rev_cases) auto
    have "?run = butlast ?run @ [last ?run]" using ne by simp
    with s t have "s = butlast ?run @ last ?run # c # rest" by (metis append.assoc append_Cons append_Nil)
    moreover have "list_all is_AZ (butlast ?run)" "is_AZ (last ?run)"
      using run ne by (auto simp: list_all_iff dest: in_set_butlastD)
    ultimately have "acronym_match s = Some (butlast ?run, [last ?run, c], rest)"
      using bl c unfolding acronym_match_iff by blast
    with t c l show ?thesis by simp
  next
    case False
    have "acronym_match s = None"
    proof (rule ccontr)
      assume "acronym_match s \<noteq> None"
      then obtain g1 g2 rest where "acronym_match s = Some (g1, g2, rest)" by auto
      then obtain b c where g: "g1 \<noteq> []" "list_all is_AZ g1" "is_AZ b" "is_az c"
        and s': "s = g1 @ b # c # rest" unfolding acronym_match_iff by blast
      from g(4) have nc: "\<not> is_AZ c" using AZ_not_az by blast
      have "s = (g1 @ [b]) @ c # rest" using s' by simp
      moreover have "\<forall>x\<in>set (g1 @ [b]). is_AZ x" using g by (auto simp: list_all_iff)
      ultimately have "?run = g1 @ [b]" "?t = c # rest"
        using nc by (simp_all add: takeWhile_tail dropWhile_append3 list_all_iff)
      with g False show False by (cases g1) auto
    qed
    with False show ?thesis by (auto split: list.split)
  qed
qed

subsection \<open>Cutting split_acronyms\<close>

lemma acronym_match_append:
  assumes "\<exists>x\<in>set u. \<not> is_AZ x"
  shows "acronym_match (u @ w) =
    map_option (\<lambda>(g1, g2, rest). (g1, g2, rest @ w)) (acronym_match u)"
proof -
  from assms have 1: "takeWhile is_AZ (u @ w) = takeWhile is_AZ u"
    and 2: "dropWhile is_AZ (u @ w) = dropWhile is_AZ u @ w"
    by (auto simp: takeWhile_append1 dropWhile_append1)
  from assms have "dropWhile is_AZ u \<noteq> []" by (auto simp: dropWhile_eq_Nil_conv)
  then obtain c rest where 3: "dropWhile is_AZ u = c # rest" by (cases "dropWhile is_AZ u") auto
  show ?thesis
    unfolding acronym_match_eq [of "u @ w"] acronym_match_eq [of u] 1 2 3 by simp
qed

lemma acronym_match_run:
  assumes "\<forall>x\<in>set u. is_AZ x" "w = [] \<or> (\<not> is_AZ (hd w) \<and> \<not> is_az (hd w))"
  shows "acronym_match (u @ w) = None"
proof (cases w)
  case Nil
  with assms(1) have d: "dropWhile is_AZ (u @ w) = []" by (simp add: dropWhile_eq_Nil_conv)
  show ?thesis unfolding acronym_match_eq [of "u @ w"] d by simp
next
  case (Cons c rest)
  with assms(2) have c: "\<not> is_AZ c" "\<not> is_az c" by simp_all
  with assms(1) Cons have d: "dropWhile is_AZ (u @ w) = c # rest" by (simp add: dropWhile_append2)
  from c show ?thesis unfolding acronym_match_eq [of "u @ w"] d by simp
qed

lemma split_acronyms_run:
  assumes "w = [] \<or> (\<not> is_AZ (hd w) \<and> \<not> is_az (hd w))"
  shows "\<forall>x\<in>set u. is_AZ x \<Longrightarrow> split_acronyms (u @ w) = u @ split_acronyms w"
proof (induction u)
  case Nil
  then show ?case by simp
next
  case (Cons c cs)
  from Cons.prems assms have "acronym_match ((c # cs) @ w) = None" by (rule acronym_match_run)
  with Cons show ?case by simp
qed

lemma split_acronyms_append:
  assumes "w = [] \<or> (\<not> is_AZ (hd w) \<and> \<not> is_az (hd w)) \<or> u = [] \<or> \<not> is_AZ (last u)"
  shows "split_acronyms (u @ w) = split_acronyms u @ split_acronyms w"
  using assms
proof (induction u rule: length_induct)
  case (1 u)
  show ?case
  proof (cases "\<forall>x\<in>set u. is_AZ x")
    case True
    then have "u = [] \<or> is_AZ (last u)" by (cases u rule: rev_cases) auto
    with 1(2) consider "u = []" | "w = [] \<or> (\<not> is_AZ (hd w) \<and> \<not> is_az (hd w))" by blast
    then show ?thesis
    proof cases
      case 1
      then show ?thesis by simp
    next
      case 2
      from split_acronyms_run [OF 2 True] split_acronyms_run [of "[]" u] True
      show ?thesis by simp
    qed
  next
    case False
    then obtain c cs where u: "u = c # cs" by (cases u) auto
    from False have m: "acronym_match (u @ w) =
      map_option (\<lambda>(g1, g2, rest). (g1, g2, rest @ w)) (acronym_match u)"
      by (intro acronym_match_append) blast
    show ?thesis
    proof (cases "acronym_match u")
      case None
      have "w = [] \<or> (\<not> is_AZ (hd w) \<and> \<not> is_az (hd w)) \<or> cs = [] \<or> \<not> is_AZ (last cs)"
        using 1(2) u by (cases cs) auto
      moreover have "length cs < length u" using u by simp
      ultimately have "split_acronyms (cs @ w) = split_acronyms cs @ split_acronyms w"
        using 1(1) by blast
      moreover from None m have "acronym_match (u @ w) = None" by simp
      ultimately show ?thesis using None u by (simp add: split_acronyms_None del: split_acronyms.simps)
    next
      case (Some t)
      obtain g1 g2 rest where t: "t = (g1, g2, rest)" by (cases t) auto
      with Some have mu: "acronym_match u = Some (g1, g2, rest)" by simp
      then obtain b c' where ur: "u = g1 @ b # c' # rest" unfolding acronym_match_iff by blast
      then have len: "length rest < length u" by simp
      have "w = [] \<or> (\<not> is_AZ (hd w) \<and> \<not> is_az (hd w)) \<or> rest = [] \<or> \<not> is_AZ (last rest)"
        using 1(2) ur by (cases rest) auto
      with 1(1) len have "split_acronyms (rest @ w) = split_acronyms rest @ split_acronyms w"
        by blast
      moreover from mu m have "acronym_match (u @ w) = Some (g1, g2, rest @ w)" by simp
      ultimately show ?thesis using mu u
        by (simp add: split_acronyms_Some del: split_acronyms.simps)
    qed
  qed
qed

lemma split_acronyms_neutral:
  assumes "\<not> is_AZ x" "\<not> is_az x"
  shows "split_acronyms (u @ x # w) = split_acronyms u @ x # split_acronyms w"
  using split_acronyms_append [of "x # w" u] assms
  by (simp add: split_acronyms_other del: split_acronyms.simps)

lemma split_acronyms_key:
  assumes "is_AZ a" "is_AZ b" "is_az c"
  shows "split_acronyms (A @ [a, b, c]) = split_acronyms (A @ [a]) @ [SPACE, b, c]"
proof (induction A rule: length_induct)
  case (1 A)
  show ?case
  proof (cases "\<forall>x\<in>set A. is_AZ x")
    case True
    with assms(1) have r: "\<forall>x\<in>set (A @ [a]). is_AZ x" by simp
    then have "split_acronyms ((A @ [a]) @ b # c # []) = (A @ [a]) @ SPACE # b # c # split_acronyms []"
      using assms by (intro split_acronyms_match) (simp_all add: list_all_iff)
    moreover from split_acronyms_run [of "[]" "A @ [a]"] r
    have "split_acronyms (A @ [a]) = A @ [a]" by simp
    ultimately show ?thesis by simp
  next
    case False
    then obtain c0 A0 where A: "A = c0 # A0" by (cases A) auto
    from False have m1: "acronym_match (A @ [a, b, c]) =
      map_option (\<lambda>(g1, g2, rest). (g1, g2, rest @ [a, b, c])) (acronym_match A)"
      by (intro acronym_match_append) blast
    from False have m2: "acronym_match (A @ [a]) =
      map_option (\<lambda>(g1, g2, rest). (g1, g2, rest @ [a])) (acronym_match A)"
      by (intro acronym_match_append) blast
    show ?thesis
    proof (cases "acronym_match A")
      case None
      from 1 A have "split_acronyms (A0 @ [a, b, c]) = split_acronyms (A0 @ [a]) @ [SPACE, b, c]"
        by simp
      moreover from None m1 m2 have "acronym_match (A @ [a, b, c]) = None"
        "acronym_match (A @ [a]) = None" by simp_all
      ultimately show ?thesis using A
        by (simp add: split_acronyms_None del: split_acronyms.simps)
    next
      case (Some t)
      obtain g1 g2 rest where t: "t = (g1, g2, rest)" by (cases t) auto
      with Some have mA: "acronym_match A = Some (g1, g2, rest)" by simp
      then obtain b' c' where "A = g1 @ b' # c' # rest" unfolding acronym_match_iff by blast
      then have "length rest < length A" by simp
      with 1 have "split_acronyms (rest @ [a, b, c]) = split_acronyms (rest @ [a]) @ [SPACE, b, c]"
        by simp
      moreover from mA m1 m2 have "acronym_match (A @ [a, b, c]) = Some (g1, g2, rest @ [a, b, c])"
        "acronym_match (A @ [a]) = Some (g1, g2, rest @ [a])" by simp_all
      ultimately show ?thesis using A
        by (simp add: split_acronyms_Some del: split_acronyms.simps)
    qed
  qed
qed

lemma split_acronyms_triple:
  assumes "is_AZ a" "is_AZ b" "is_az c"
  shows "split_acronyms (A @ a # b # c # B) = split_acronyms (A @ [a]) @ SPACE # b # c # split_acronyms B"
proof -
  from assms(3) have "\<not> is_AZ c" using AZ_not_az by blast
  then have "split_acronyms ((A @ [a, b, c]) @ B) = split_acronyms (A @ [a, b, c]) @ split_acronyms B"
    by (intro split_acronyms_append) simp
  with split_acronyms_key [OF assms, of A] show ?thesis by simp
qed

lemma split_acronyms_eq_Nil: "split_acronyms s = [] \<longleftrightarrow> s = []"
proof (cases s)
  case Nil
  then show ?thesis by simp
next
  case (Cons c cs)
  then show ?thesis by (cases "acronym_match (c # cs)") auto
qed

lemma last_split_acronyms: "s \<noteq> [] \<Longrightarrow> last (split_acronyms s) = last s"
proof (induction s rule: length_induct)
  case (1 s)
  then obtain c cs where s: "s = c # cs" by (cases s) auto
  show ?case
  proof (cases "acronym_match s")
    case None
    with s have e: "split_acronyms s = c # split_acronyms cs"
      by (simp add: split_acronyms_None del: split_acronyms.simps)
    show ?thesis
    proof (cases "cs = []")
      case True
      with e s show ?thesis by simp
    next
      case False
      with 1 s have "last (split_acronyms cs) = last cs" by simp
      with e s False show ?thesis by (simp add: split_acronyms_eq_Nil del: split_acronyms.simps)
    qed
  next
    case (Some t)
    obtain g1 g2 rest where t: "t = (g1, g2, rest)" by (cases t) auto
    with Some have m: "acronym_match s = Some (g1, g2, rest)" by simp
    then obtain b' c' where g2: "g2 = [b', c']" and sr: "s = g1 @ b' # c' # rest"
      unfolding acronym_match_iff by blast
    from m s have e: "split_acronyms s = g1 @ SPACE # g2 @ split_acronyms rest"
      by (simp add: split_acronyms_Some del: split_acronyms.simps)
    show ?thesis
    proof (cases "rest = []")
      case True
      with e g2 sr show ?thesis by simp
    next
      case False
      from sr have "length rest < length s" by simp
      with 1 False have "last (split_acronyms rest) = last rest" by simp
      with e g2 sr False show ?thesis
        by (simp add: split_acronyms_eq_Nil del: split_acronyms.simps)
    qed
  qed
qed

lemma hd_split_acronyms: "split_acronyms (c # cs) = c # tl (split_acronyms (c # cs))"
proof (cases "acronym_match (c # cs)")
  case None
  then show ?thesis by simp
next
  case (Some t)
  obtain g1 g2 rest where t: "t = (g1, g2, rest)" by (cases t) auto
  with Some have m: "acronym_match (c # cs) = Some (g1, g2, rest)" by simp
  then obtain b' c' where "g1 \<noteq> []" "c # cs = g1 @ b' # c' # rest"
    unfolding acronym_match_iff by blast
  then obtain g where "g1 = c # g" by (cases g1) auto
  with m show ?thesis by simp
qed

subsection \<open>Cutting split_runs and split_at\<close>

lemma split_runs_Cons_other:
  "\<not> P x \<Longrightarrow> split_runs P (x # v) = (x # hd (split_runs P v)) # tl (split_runs P v)"
  by (simp add: Let_def)

lemma glue_Cons:
  assumes "L \<noteq> []"
  shows "(c # hd (butlast L @ [last L @ m] @ R)) # tl (butlast L @ [last L @ m] @ R)
    = butlast ((c # hd L) # tl L) @ [last ((c # hd L) # tl L) @ m] @ R"
proof (cases L)
  case Nil
  with assms show ?thesis by simp
next
  case (Cons l ls)
  then show ?thesis by (cases ls) simp_all
qed

lemma split_runs_glue:
  "\<not> P x \<Longrightarrow> split_runs P (u @ x # v) =
    butlast (split_runs P u) @ [last (split_runs P u) @ x # hd (split_runs P v)] @ tl (split_runs P v)"
proof (induction P u rule: split_runs.induct)
  case (1 P)
  then show ?case by (simp add: Let_def)
next
  case (2 P c cs)
  show ?case
  proof (cases "P c")
    case True
    have "dropWhile P (cs @ x # v) = dropWhile P cs @ x # v"
      using dropWhile_keep [of "x # v" P cs] 2(3) by simp
    with True 2(1) [OF True 2(3)] show ?thesis by simp
  next
    case False
    have ne: "split_runs P cs \<noteq> []" by simp
    from False 2(2) [OF False 2(3)] show ?thesis
      using glue_Cons [OF ne, of c "x # hd (split_runs P v)" "tl (split_runs P v)"]
      by (simp add: Let_def)
  qed
qed

lemma split_at_glue:
  assumes "x \<noteq> d"
  shows "split_at d (u @ x # v) =
    butlast (split_at d u) @ [last (split_at d u) @ x # hd (split_at d v)] @ tl (split_at d v)"
proof (induction u)
  case Nil
  from assms show ?case by (simp add: Let_def)
next
  case (Cons c cs)
  have ne: "split_at d cs \<noteq> []" by simp
  show ?case
  proof (cases "c = d")
    case True
    with Cons show ?thesis by simp
  next
    case False
    with Cons show ?thesis
      using glue_Cons [OF ne, of c "x # hd (split_at d v)" "tl (split_at d v)"]
      by (simp add: Let_def)
  qed
qed

lemma split_at_cut: "split_at d (u @ d # v) = split_at d u @ split_at d v"
proof (induction u)
  case Nil
  then show ?case by simp
next
  case (Cons c cs)
  have "split_at d cs \<noteq> []" by simp
  then obtain l ls where "split_at d cs = l # ls" by (cases "split_at d cs") auto
  with Cons show ?case by (simp add: Let_def)
qed

lemma split_runs_cut:
  "P d \<Longrightarrow> v = [] \<or> \<not> P (hd v) \<Longrightarrow> u = [] \<or> \<not> P (last u) \<Longrightarrow>
     split_runs P (u @ d # v) = split_runs P u @ split_runs P v"
proof (induction P u rule: split_runs.induct)
  case (1 P)
  from 1(2) have "dropWhile P v = v" by (cases v) auto
  with 1(1) show ?case by simp
next
  case (2 P c cs)
  from 2(5) have last: "cs = [] \<or> \<not> P (last cs)" by (cases cs) auto
  show ?case
  proof (cases "P c")
    case True
    with 2(5) last have cs: "cs \<noteq> []" "\<not> P (last cs)" by auto
    then have "last cs \<in> set cs" "\<not> P (last cs)" by simp_all
    then have d1: "dropWhile P (cs @ d # v) = dropWhile P cs @ d # v"
      and d2: "dropWhile P cs \<noteq> []"
      by (auto simp: dropWhile_append1 dropWhile_eq_Nil_conv)
    then have "last (dropWhile P cs) = last cs" by (simp add: last_dropWhile_ne)
    with cs d2 have "dropWhile P cs = [] \<or> \<not> P (last (dropWhile P cs))" by simp
    from 2(1) [OF True 2(3) 2(4) this] True d1 show ?thesis by simp
  next
    case False
    have "split_runs P cs \<noteq> []" by simp
    then obtain l ls where "split_runs P cs = l # ls" by (cases "split_runs P cs") auto
    with False 2(2) [OF False 2(3) 2(4) last] show ?thesis by (simp add: Let_def)
  qed
qed

lemma concat_split_runs: "concat (split_runs P s) = filter (\<lambda>c. \<not> P c) s"
proof (induction P s rule: split_runs.induct)
  case (1 P)
  then show ?case by simp
next
  case (2 P c cs)
  have "split_runs P cs \<noteq> []" by simp
  then obtain l ls where r: "split_runs P cs = l # ls" by (cases "split_runs P cs") auto
  have "filter (\<lambda>c. \<not> P c) (dropWhile P cs) = filter (\<lambda>c. \<not> P c) cs"
    by (induction cs) auto
  with 2 r show ?case by (cases "P c") (simp_all add: Let_def)
qed

lemma concat_split_at: "concat (split_at d s) = filter (\<lambda>c. c \<noteq> d) s"
proof (induction s)
  case Nil
  then show ?case by simp
next
  case (Cons c cs)
  have "split_at d cs \<noteq> []" by simp
  then obtain l ls where r: "split_at d cs = l # ls" by (cases "split_at d cs") auto
  with Cons show ?case by (simp add: Let_def)
qed

lemma concat_nonempty: "concat (nonempty ws) = concat ws"
  by (induction ws) (simp_all add: nonempty_def)

lemma nonempty_append: "nonempty (xs @ ys) = nonempty xs @ nonempty ys"
  by (simp add: nonempty_def)

subsection \<open>A boundary inside a word of toCamelCase\<close>

lemma SPACE_neutral: "\<not> is_AZ SPACE" "\<not> is_az SPACE" "\<not> is_az09 SPACE"
  by (simp_all add: class_defs)

lemma az09_not_AZ: "is_az09 a \<Longrightarrow> \<not> is_AZ a"
  using AZ_not_az [of a] AZ_not_09 [of a] by (auto simp: is_az09_def)

lemma splitCamel_SPACE:
  "nonempty (split_at SPACE (split_pairs is_az09 (Y @ SPACE # Z))) =
     nonempty (split_at SPACE (split_pairs is_az09 Y)) @
     nonempty (split_at SPACE (split_pairs is_az09 Z))"
  by (simp add: split_pairs_neutral SPACE_neutral split_at_cut nonempty_append)

lemma split_acronyms_Cons2:
  assumes "is_AZ b" "\<not> is_AZ c"
  shows "split_acronyms (b # c # r) = b # c # split_acronyms r"
proof -
  have "acronym_match (b # c # r) = None"
    using assms unfolding acronym_match_eq [of "b # c # r"] by simp
  then have "split_acronyms (b # c # r) = b # split_acronyms (c # r)"
    by (rule split_acronyms_None)
  with assms(2) show ?thesis by (simp add: split_acronyms_other del: split_acronyms.simps)
qed

lemma word_acronym_boundary:
  assumes "is_AZ a" "is_AZ b" "is_az c"
  shows "nonempty (splitCamel (l @ a # b # c # r)) =
    nonempty (splitCamel (l @ [a])) @ nonempty (splitCamel (b # c # r))"
proof -
  from assms(3) have nc: "\<not> is_AZ c" using AZ_not_az by blast
  have "split_acronyms (l @ a # b # c # r) =
      split_acronyms (l @ [a]) @ SPACE # split_acronyms (b # c # r)"
    using split_acronyms_triple [OF assms, of l r] split_acronyms_Cons2 [OF assms(2) nc, of r]
    by simp
  then show ?thesis unfolding splitCamel_def by (simp only: splitCamel_SPACE)
qed

lemma word_camel_boundary:
  assumes "is_az09 a" "is_AZ b"
  shows "nonempty (splitCamel (l @ a # b # r)) =
    nonempty (splitCamel (l @ [a])) @ nonempty (splitCamel (b # r))"
proof -
  from assms(1) have na: "\<not> is_AZ a" by (rule az09_not_AZ)
  from assms(2) have nb: "\<not> is_az09 b"
    using AZ_not_az [of b] AZ_not_09 [of b] by (simp add: is_az09_def)
  have 1: "split_acronyms ((l @ [a]) @ (b # r)) = split_acronyms (l @ [a]) @ split_acronyms (b # r)"
    using na by (intro split_acronyms_append) simp
  have "split_acronyms (l @ [a]) \<noteq> []" by (simp add: split_acronyms_eq_Nil)
  moreover have "last (split_acronyms (l @ [a])) = a" by (simp add: last_split_acronyms)
  ultimately obtain Y where Y: "split_acronyms (l @ [a]) = Y @ [a]"
    by (metis append_butlast_last_id)
  obtain Z where Z: "split_acronyms (b # r) = b # Z" using hd_split_acronyms by blast
  have "split_pairs is_az09 (Y @ a # b # Z) = split_pairs is_az09 (Y @ a # SPACE # b # Z)"
    using assms na nb SPACE_neutral by (intro split_pairs_pair) simp_all
  then have "split_pairs is_az09 (split_acronyms (l @ a # b # r)) =
    split_pairs is_az09 (split_acronyms (l @ [a]) @ SPACE # split_acronyms (b # r))"
    using 1 Y Z by simp
  then show ?thesis unfolding splitCamel_def by (simp only: splitCamel_SPACE)
qed

subsection \<open>A boundary inside a string of toCamelCase\<close>

lemma camel_words_of: "camel_words str = words_of (split_pairs is_az str)"
  by (simp add: camel_words_def words_of_def)

lemma words_of_SPACE:
  assumes "\<not> is_sep a" "\<not> is_sep b"
  shows "words_of (A @ a # SPACE # b # B) = words_of (A @ [a]) @ words_of (b # B)"
proof -
  have "split_runs is_sep ((A @ [a]) @ SPACE # b # B) =
      split_runs is_sep (A @ [a]) @ split_runs is_sep (b # B)"
    using assms is_sep_SPACE by (intro split_runs_cut) simp_all
  then show ?thesis by (simp add: words_of_def nonempty_append)
qed

lemma words_of_glue:
  assumes "\<not> is_sep a" "\<not> is_sep b"
    and "nonempty (splitCamel (last (split_runs is_sep A) @ a # b # hd (split_runs is_sep B))) =
      nonempty (splitCamel (last (split_runs is_sep A) @ [a])) @
      nonempty (splitCamel (b # hd (split_runs is_sep B)))"
  shows "words_of (A @ a # b # B) = words_of (A @ [a]) @ words_of (b # B)"
proof -
  let ?L = "split_runs is_sep A" and ?R = "split_runs is_sep B"
  let ?f = "\<lambda>word. nonempty (splitCamel word)"
  have 1: "split_runs is_sep (A @ [a]) = butlast ?L @ [last ?L @ [a]]"
    using split_runs_glue [of is_sep a A "[]"] assms(1) by simp
  have 2: "split_runs is_sep (b # B) = (b # hd ?R) # tl ?R"
    using assms(2) by (rule split_runs_Cons_other)
  have "split_runs is_sep ((A @ [a]) @ b # B) =
    butlast (split_runs is_sep (A @ [a])) @
      [last (split_runs is_sep (A @ [a])) @ b # hd ?R] @ tl ?R"
    using assms(2) by (rule split_runs_glue)
  then have 3: "split_runs is_sep (A @ a # b # B) =
    butlast ?L @ [last ?L @ a # b # hd ?R] @ tl ?R"
    unfolding 1 by simp
  have "words_of (A @ a # b # B) =
      concat (map ?f (nonempty (butlast ?L))) @ ?f (last ?L @ a # b # hd ?R) @
      concat (map ?f (nonempty (tl ?R)))"
    unfolding words_of_def 3 by (simp add: nonempty_append nonempty_def)
  moreover have "words_of (A @ [a]) = concat (map ?f (nonempty (butlast ?L))) @ ?f (last ?L @ [a])"
    unfolding words_of_def 1 by (simp add: nonempty_append nonempty_def)
  moreover have "words_of (b # B) = ?f (b # hd ?R) @ concat (map ?f (nonempty (tl ?R)))"
    unfolding words_of_def 2 by (simp add: nonempty_append nonempty_def)
  ultimately show ?thesis using assms(3) by simp
qed

subsection \<open>Inserting a space at a boundary\<close>

lemma not_sep_s: "\<not> is_sepdot a \<Longrightarrow> \<not> is_s a"
  by (simp add: is_sepdot_def)

lemma trim_around:
  assumes "\<not> is_s a" "\<not> is_s b"
  shows "trim (u @ a # m @ b # v) = dropWhile is_s u @ a # m @ b # rev (dropWhile is_s (rev v))"
  using trim_middle [of "a # m @ [b]" u v] assms by simp

lemma camel_not_blank:
  assumes "\<not> is_sep a"
  shows "toCamelCase U (OValue opts) (VString (u @ a # v)) =
    Inr (join [] (map (camel_word U (preserve opts)) (enumerate 0 (camel_words (trim (u @ a # v))))))"
proof -
  from assms have s: "\<not> is_s a" by (simp add: is_sep_def)
  have t: "trim (u @ a # v) = dropWhile is_s u @ a # rev (dropWhile is_s (rev v))"
    using trim_middle [of "[a]" u v] s by simp
  then have "trim (u @ a # v) \<noteq> []" "\<not> only is_sep (trim (u @ a # v))"
    using assms by (simp_all add: only_def)
  then show ?thesis by (auto simp: toCamelCase_value Let_def)
qed

lemma kebab_boundary:
  assumes "is_az09 a" "is_AZ b"
  shows "kebab_words (u @ a # b # v) = kebab_words (u @ a # SPACE # b # v)"
proof -
  have s: "\<not> is_s a" "\<not> is_s b"
    using assms az09_not_sep AZ_not_s not_sep_s by blast+
  have n: "\<not> is_AZ a" "\<not> is_az09 b"
    using assms az09_not_AZ [of a] az09_not_AZ [of b] by blast+
  have "trim (u @ a # b # v) = dropWhile is_s u @ a # b # rev (dropWhile is_s (rev v))"
    using trim_around [OF s, of u "[]" v] by simp
  moreover have "trim (u @ a # SPACE # b # v) =
      dropWhile is_s u @ a # SPACE # b # rev (dropWhile is_s (rev v))"
    using trim_around [OF s, of u "[SPACE]" v] by simp
  moreover have "split_pairs is_az09 (dropWhile is_s u @ a # b # rev (dropWhile is_s (rev v))) =
    split_pairs is_az09 (dropWhile is_s u @ a # SPACE # b # rev (dropWhile is_s (rev v)))"
    using assms n SPACE_neutral by (intro split_pairs_pair) simp_all
  ultimately show ?thesis by (simp add: kebab_words_eq)
qed

lemma dot_boundary:
  assumes "is_az a" "is_AZ b"
  shows "dot_words (trim (u @ a # b # v)) = dot_words (trim (u @ a # SPACE # b # v))"
proof -
  have s: "\<not> is_s a" "\<not> is_s b"
    using assms az_not_s AZ_not_s not_sep_s by blast+
  have n: "\<not> is_AZ a" "\<not> is_az b"
    using assms AZ_not_az by blast+
  have "trim (u @ a # b # v) = dropWhile is_s u @ a # b # rev (dropWhile is_s (rev v))"
    using trim_around [OF s, of u "[]" v] by simp
  moreover have "trim (u @ a # SPACE # b # v) =
      dropWhile is_s u @ a # SPACE # b # rev (dropWhile is_s (rev v))"
    using trim_around [OF s, of u "[SPACE]" v] by simp
  moreover have "split_pairs is_az (dropWhile is_s u @ a # b # rev (dropWhile is_s (rev v))) =
    split_pairs is_az (dropWhile is_s u @ a # SPACE # b # rev (dropWhile is_s (rev v)))"
    using assms n SPACE_neutral by (intro split_pairs_pair) simp_all
  ultimately show ?thesis by (simp add: dot_words_eq)
qed

lemma camel_boundary:
  assumes "is_az09 a" "is_AZ b"
  shows "camel_words (trim (u @ a # b # v)) = camel_words (trim (u @ a # SPACE # b # v))"
proof -
  let ?u = "dropWhile is_s u" and ?v = "rev (dropWhile is_s (rev v))"
  have sd: "\<not> is_sepdot a" "\<not> is_sepdot b"
    using assms az09_not_sep AZ_not_s by blast+
  then have s: "\<not> is_s a" "\<not> is_s b" and sp: "\<not> is_sep a" "\<not> is_sep b"
    using not_sep_s is_sep_sepdot by blast+
  have n: "\<not> is_AZ a" "\<not> is_az b"
    using assms az09_not_AZ [of a] AZ_not_az by blast+
  have t1: "trim (u @ a # b # v) = ?u @ a # b # ?v"
    using trim_around [OF s, of u "[]" v] by simp
  have t2: "trim (u @ a # SPACE # b # v) = ?u @ a # SPACE # b # ?v"
    using trim_around [OF s, of u "[SPACE]" v] by simp
  show ?thesis
  proof (cases "is_az a")
    case True
    have "split_pairs is_az (?u @ a # b # ?v) = split_pairs is_az (?u @ a # SPACE # b # ?v)"
      using True assms n SPACE_neutral by (intro split_pairs_pair) simp_all
    then show ?thesis unfolding t1 t2 camel_words_of by simp
  next
    case False
    have x1: "split_pairs is_az (?u @ a # b # ?v) = split_pairs is_az ?u @ a # b # split_pairs is_az ?v"
      using split_pairs_neutral [of is_az a ?u "b # ?v"] False n
      by (simp add: split_pairs_Cons_other)
    have x2: "split_pairs is_az (?u @ a # SPACE # b # ?v) =
        split_pairs is_az ?u @ a # SPACE # b # split_pairs is_az ?v"
      using split_pairs_neutral [of is_az a ?u "SPACE # b # ?v"] False n SPACE_neutral
      by (simp add: split_pairs_Cons_other)
    have "words_of (split_pairs is_az ?u @ a # b # split_pairs is_az ?v) =
      words_of (split_pairs is_az ?u @ [a]) @ words_of (b # split_pairs is_az ?v)"
      using sp word_camel_boundary [OF assms] by (rule words_of_glue)
    moreover have "words_of (split_pairs is_az ?u @ a # SPACE # b # split_pairs is_az ?v) =
      words_of (split_pairs is_az ?u @ [a]) @ words_of (b # split_pairs is_az ?v)"
      using sp by (rule words_of_SPACE)
    ultimately show ?thesis unfolding t1 t2 camel_words_of x1 x2 by simp
  qed
qed

lemma dot_acronym_boundary:
  assumes "is_AZ a" "is_AZ b" "is_az c"
  shows "dot_words (trim (u @ a # b # c # v)) = dot_words (trim (u @ a # SPACE # b # c # v))"
proof -
  let ?u = "dropWhile is_s u" and ?v = "rev (dropWhile is_s (rev v))"
  have s: "\<not> is_s a" "\<not> is_s c"
    using assms az_not_s AZ_not_s not_sep_s by blast+
  have n: "\<not> is_az a" "\<not> is_az b" "\<not> is_AZ c" using assms AZ_not_az by blast+
  have t1: "trim (u @ a # b # c # v) = ?u @ a # b # c # ?v"
    using trim_around [OF s, of u "[b]" v] by simp
  have t2: "trim (u @ a # SPACE # b # c # v) = ?u @ a # SPACE # b # c # ?v"
    using trim_around [OF s, of u "[SPACE, b]" v] by simp
  obtain A where A: "split_pairs is_az (?u @ [a]) = A @ [a]"
    using last_split_pairs [of "?u @ [a]" is_az] split_pairs_eq_Nil [of is_az "?u @ [a]"]
    by (metis append_butlast_last_id last_snoc snoc_eq_iff_butlast)
  obtain B where B: "split_pairs is_az (c # ?v) = c # B"
    using hd_split_pairs [of is_az "c # ?v"] split_pairs_eq_Nil [of is_az "c # ?v"]
    by (metis list.collapse list.distinct(1) list.sel(1))
  have x1: "split_pairs is_az (?u @ a # b # c # ?v) = A @ a # b # c # B"
    using split_pairs_cut_after [of is_az a ?u "b # c # ?v"] n A B
    by (simp add: split_pairs_Cons_other)
  have x2: "split_pairs is_az (?u @ a # SPACE # b # c # ?v) = A @ a # SPACE # b # c # B"
    using split_pairs_cut_after [of is_az a ?u "SPACE # b # c # ?v"] n A B SPACE_neutral
    by (simp add: split_pairs_Cons_other)
  have "split_acronyms (A @ a # b # c # B) = split_acronyms (A @ [a]) @ SPACE # b # c # split_acronyms B"
    using assms by (rule split_acronyms_triple)
  moreover have "split_acronyms ((A @ [a]) @ SPACE # b # c # B) =
      split_acronyms (A @ [a]) @ SPACE # split_acronyms (b # c # B)"
    using SPACE_neutral by (intro split_acronyms_neutral) simp_all
  moreover have "split_acronyms (b # c # B) = b # c # split_acronyms B"
    using assms(2) n(3) by (rule split_acronyms_Cons2)
  ultimately have "split_acronyms (A @ a # b # c # B) = split_acronyms (A @ a # SPACE # b # c # B)"
    by simp
  then show ?thesis unfolding t1 t2 dot_words_eq x1 x2 by simp
qed

lemma camel_acronym_boundary:
  assumes "is_AZ a" "is_AZ b" "is_az c"
  shows "camel_words (trim (u @ a # b # c # v)) = camel_words (trim (u @ a # SPACE # b # c # v))"
proof -
  let ?u = "dropWhile is_s u" and ?v = "rev (dropWhile is_s (rev v))"
  have s: "\<not> is_s a" "\<not> is_s c"
    using assms az_not_s AZ_not_s not_sep_s by blast+
  have sp: "\<not> is_sep a" "\<not> is_sep b" "\<not> is_sep c"
    using assms AZ_not_s az_not_s is_sep_sepdot by blast+
  have n: "\<not> is_az a" "\<not> is_az b" "\<not> is_AZ c" using assms AZ_not_az by blast+
  have t1: "trim (u @ a # b # c # v) = ?u @ a # b # c # ?v"
    using trim_around [OF s, of u "[b]" v] by simp
  have t2: "trim (u @ a # SPACE # b # c # v) = ?u @ a # SPACE # b # c # ?v"
    using trim_around [OF s, of u "[SPACE, b]" v] by simp
  obtain A where A: "split_pairs is_az (?u @ [a]) = A @ [a]"
    using last_split_pairs [of "?u @ [a]" is_az] split_pairs_eq_Nil [of is_az "?u @ [a]"]
    by (metis append_butlast_last_id last_snoc snoc_eq_iff_butlast)
  obtain B where B: "split_pairs is_az (c # ?v) = c # B"
    using hd_split_pairs [of is_az "c # ?v"] split_pairs_eq_Nil [of is_az "c # ?v"]
    by (metis list.collapse list.distinct(1) list.sel(1))
  have x1: "split_pairs is_az (?u @ a # b # c # ?v) = A @ a # b # c # B"
    using split_pairs_cut_after [of is_az a ?u "b # c # ?v"] n A B
    by (simp add: split_pairs_Cons_other)
  have x2: "split_pairs is_az (?u @ a # SPACE # b # c # ?v) = A @ a # SPACE # b # c # B"
    using split_pairs_cut_after [of is_az a ?u "SPACE # b # c # ?v"] n A B SPACE_neutral
    by (simp add: split_pairs_Cons_other)
  have h: "hd (split_runs is_sep (c # B)) = c # hd (split_runs is_sep B)"
    using split_runs_Cons_other [of is_sep c B] sp(3) by (simp del: split_runs.simps)
  have g: "nonempty (splitCamel (last (split_runs is_sep A) @ a # b # hd (split_runs is_sep (c # B)))) =
      nonempty (splitCamel (last (split_runs is_sep A) @ [a])) @
      nonempty (splitCamel (b # hd (split_runs is_sep (c # B))))"
    unfolding h by (rule word_acronym_boundary [OF assms])
  have "words_of (A @ a # b # (c # B)) = words_of (A @ [a]) @ words_of (b # c # B)"
    using sp(1,2) g by (rule words_of_glue)
  moreover have "words_of (A @ a # SPACE # b # c # B) = words_of (A @ [a]) @ words_of (b # c # B)"
    using sp(1,2) by (rule words_of_SPACE)
  ultimately show ?thesis unfolding t1 t2 camel_words_of x1 x2 by simp
qed

lemma kebab_boundary_result:
  assumes "is_az09 a" "is_AZ b"
  shows "toKebabCase U (VString (u @ a # b # v)) = toKebabCase U (VString (u @ a # SPACE # b # v))"
  by (simp only: kebab_result kebab_boundary [OF assms])

lemma dot_boundary_result:
  assumes "is_az a" "is_AZ b"
  shows "toDotCase U (VString (u @ a # b # v)) = toDotCase U (VString (u @ a # SPACE # b # v))"
  by (simp only: dot_result dot_boundary [OF assms])

lemma camel_boundary_result:
  assumes "is_az09 a" "is_AZ b"
  shows "toCamelCase U (OValue opts) (VString (u @ a # b # v)) =
    toCamelCase U (OValue opts) (VString (u @ a # SPACE # b # v))"
proof -
  from assms(1) have a: "\<not> is_sep a" using az09_not_sep is_sep_sepdot by blast
  show ?thesis
    unfolding camel_not_blank [OF a, of U opts u "b # v"]
      camel_not_blank [OF a, of U opts u "SPACE # b # v"] camel_boundary [OF assms] ..
qed

lemma dot_acronym_result:
  assumes "is_AZ a" "is_AZ b" "is_az c"
  shows "toDotCase U (VString (u @ a # b # c # v)) =
    toDotCase U (VString (u @ a # SPACE # b # c # v))"
  by (simp only: dot_result dot_acronym_boundary [OF assms])

lemma camel_acronym_result:
  assumes "is_AZ a" "is_AZ b" "is_az c"
  shows "toCamelCase U (OValue opts) (VString (u @ a # b # c # v)) =
    toCamelCase U (OValue opts) (VString (u @ a # SPACE # b # c # v))"
proof -
  from assms(1) have a: "\<not> is_sep a" using AZ_not_s is_sep_sepdot by blast
  show ?thesis
    unfolding camel_not_blank [OF a, of U opts u "b # c # v"]
      camel_not_blank [OF a, of U opts u "SPACE # b # c # v"] camel_acronym_boundary [OF assms] ..
qed

lemmas words_defs =
  class_defs js_def trim_def nonempty_def acronym_match_def splitCamel_def
  kebab_words_def camel_words_def dot_words_def

lemma a1B_words:
  "kebab_words (js ''a1B'') = [js ''a1'', js ''B'']"
  "camel_words (trim (js ''a1B'')) = [js ''a1'', js ''B'']"
  "dot_words (trim (js ''aB'')) = [js ''a'', js ''B'']"
  by (simp_all add: words_defs)

lemma a1B_results:
  "toKebabCase U (VString (js ''a1B'')) = Inr (js ''a1-b'')"
  "toCamelCase U OUndefined (VString (js ''a1B'')) = Inr (js ''a1B'')"
  "toDotCase U (VString (js ''aB'')) = Inr (js ''a.b'')"
  by (simp_all add: eval_defs)

lemma camel_myHTTPServer:
  "\<not> preserve opts \<Longrightarrow>
   toCamelCase U (OValue opts) (VString (js ''myHTTPServer'')) = Inr (js ''myHttpServer'')"
  by (simp add: words_defs only_def ascii_lower_def ascii_upper_def toLowerCase_def
      toUpperCase_def camel_word_def toCamelCase_value enumerate_eq_zip)

lemma dot_myHTTPServer:
  "toDotCase U (VString (js ''myHTTPServer'')) = Inr (js ''my.http.server'')"
  by (simp add: words_defs only_def ascii_lower_def toLowerCase_def toDotCase_def)

subsection \<open>A code unit that is in no character class\<close>

lemma non_ascii_neutral:
  assumes "\<not> is_ascii x" "\<not> is_s x"
  shows "\<not> is_az x" "\<not> is_AZ x" "\<not> is_09 x" "\<not> is_az09 x" "\<not> is_sep x" "\<not> is_sepdot x"
    "x \<noteq> SPACE"
  using assms by (auto simp: class_defs word_le_nat_alt word_less_nat_alt)

lemma filter_dropWhile_other:
  "(\<And>c. P c \<Longrightarrow> \<not> Q c) \<Longrightarrow> filter Q (dropWhile P u) = filter Q u"
  by (induction u) auto

lemma filter_trim_end:
  assumes "\<And>c. P c \<Longrightarrow> \<not> Q c"
  shows "filter Q (rev (dropWhile P (rev v))) = filter Q v"
proof -
  have "filter Q (rev (dropWhile P (rev v))) = rev (filter Q (dropWhile P (rev v)))"
    by (simp add: rev_filter)
  also have "\<dots> = rev (filter Q (rev v))" using assms by (simp add: filter_dropWhile_other)
  finally show ?thesis by (simp add: rev_filter)
qed

lemma last_dropWhile_keep:
  assumes "u \<noteq> []" "\<not> P (last u)"
  shows "dropWhile P u \<noteq> []" "last (dropWhile P u) = last u"
proof -
  from assms have "last u \<in> set u" by simp
  with assms(2) show "dropWhile P u \<noteq> []" by (auto simp: dropWhile_eq_Nil_conv)
  then show "last (dropWhile P u) = last u" by (rule last_dropWhile_ne)
qed

lemma hd_trim_end:
  assumes "v \<noteq> []" "\<not> P (hd v)"
  shows "rev (dropWhile P (rev v)) \<noteq> []" "hd (rev (dropWhile P (rev v))) = hd v"
proof -
  from assms obtain y v0 where v: "v = y # v0" "\<not> P y" by (cases v) auto
  then have "dropWhile P (rev v0 @ [y]) = dropWhile P (rev v0) @ [y]"
    using dropWhile_keep [of "[y]" P "rev v0"] by simp
  with v show "rev (dropWhile P (rev v)) \<noteq> []" "hd (rev (dropWhile P (rev v))) = hd v"
    by simp_all
qed

lemma last_split_runs:
  assumes "s \<noteq> []" "\<not> P (last s)"
  shows "last (split_runs P s) \<noteq> []" "last (last (split_runs P s)) = last s"
proof -
  from assms(1) obtain s' where s: "s = s' @ [last s]" by (metis append_butlast_last_id)
  have "split_runs P (s' @ [last s]) =
    butlast (split_runs P s') @ [last (split_runs P s') @ [last s]]"
    using split_runs_glue [of P "last s" s' "[]"] assms(2) by simp
  with s have "last (split_runs P s) = last (split_runs P s') @ [last s]" by simp
  then show "last (split_runs P s) \<noteq> []" "last (last (split_runs P s)) = last s" by simp_all
qed

lemma hd_split_runs:
  assumes "s \<noteq> []" "\<not> P (hd s)"
  shows "hd (split_runs P s) \<noteq> []" "hd (hd (split_runs P s)) = hd s"
proof -
  from assms obtain y s' where s: "s = y # s'" "\<not> P y" by (cases s) auto
  then show "hd (split_runs P s) \<noteq> []" "hd (hd (split_runs P s)) = hd s"
    by (simp_all add: Let_def)
qed

lemma last_split_at:
  assumes "s \<noteq> []" "last s \<noteq> d"
  shows "last (split_at d s) \<noteq> []" "last (last (split_at d s)) = last s"
proof -
  from assms(1) obtain s' where s: "s = s' @ [last s]" by (metis append_butlast_last_id)
  have "split_at d (s' @ [last s]) =
    butlast (split_at d s') @ [last (split_at d s') @ [last s]]"
    using split_at_glue [of "last s" d s' "[]"] assms(2) by simp
  with s have "last (split_at d s) = last (split_at d s') @ [last s]" by simp
  then show "last (split_at d s) \<noteq> []" "last (last (split_at d s)) = last s" by simp_all
qed

lemma hd_split_at:
  assumes "s \<noteq> []" "hd s \<noteq> d"
  shows "hd (split_at d s) \<noteq> []" "hd (hd (split_at d s)) = hd s"
proof -
  from assms obtain y s' where s: "s = y # s'" "y \<noteq> d" by (cases s) auto
  then show "hd (split_at d s) \<noteq> []" "hd (hd (split_at d s)) = hd s"
    by (simp_all add: Let_def)
qed

lemma concat_butlast_last: "L \<noteq> [] \<Longrightarrow> concat (butlast L) @ last L = concat L"
  by (induction L) auto

lemma concat_hd_tl: "R \<noteq> [] \<Longrightarrow> hd R @ concat (tl R) = concat R"
  by (cases R) auto

subsection \<open>The words around a code unit that is in no class\<close>

lemma in_one_word_runs:
  assumes x: "\<not> P x"
    and Y: "filter (\<lambda>c. \<not> P c) Y = filter (\<lambda>c. \<not> P c) u"
      "u \<noteq> [] \<and> \<not> P (last u) \<Longrightarrow> Y \<noteq> [] \<and> \<not> P (last Y)"
    and Z: "filter (\<lambda>c. \<not> P c) Z = filter (\<lambda>c. \<not> P c) v"
      "v \<noteq> [] \<and> \<not> P (hd v) \<Longrightarrow> Z \<noteq> [] \<and> \<not> P (hd Z)"
  shows "in_one_word P (split_runs P (Y @ x # Z)) u x v"
    and "in_one_word P (nonempty (split_runs P (Y @ x # Z))) u x v"
proof -
  let ?L = "split_runs P Y" and ?R = "split_runs P Z"
  have g: "split_runs P (Y @ x # Z) = butlast ?L @ [last ?L @ x # hd ?R] @ tl ?R"
    using x by (rule split_runs_glue)
  have l: "concat (butlast ?L) @ last ?L = filter (\<lambda>c. \<not> P c) u"
    using Y(1) by (simp add: concat_butlast_last concat_split_runs)
  have r: "hd ?R @ concat (tl ?R) = filter (\<lambda>c. \<not> P c) v"
    using Z(1) by (simp add: concat_hd_tl concat_split_runs)
  have p: "last ?L = [] \<longrightarrow> u = [] \<or> P (last u)"
    using Y(2) last_split_runs(1) [of Y P] by blast
  have q: "hd ?R = [] \<longrightarrow> v = [] \<or> P (hd v)"
    using Z(2) hd_split_runs(1) [of Z P] by blast
  from g l r p q show "in_one_word P (split_runs P (Y @ x # Z)) u x v"
    unfolding in_one_word_def by blast
  have "nonempty (split_runs P (Y @ x # Z)) =
    nonempty (butlast ?L) @ [last ?L @ x # hd ?R] @ nonempty (tl ?R)"
    unfolding g by (simp add: nonempty_def)
  moreover have "concat (nonempty (butlast ?L)) @ last ?L = filter (\<lambda>c. \<not> P c) u"
    using l by (simp add: concat_nonempty)
  moreover have "hd ?R @ concat (nonempty (tl ?R)) = filter (\<lambda>c. \<not> P c) v"
    using r by (simp add: concat_nonempty)
  ultimately show "in_one_word P (nonempty (split_runs P (Y @ x # Z))) u x v"
    using p q unfolding in_one_word_def by blast
qed

lemma hd_split_acronyms_ne: "s \<noteq> [] \<Longrightarrow> hd (split_acronyms s) = hd s"
proof -
  assume "s \<noteq> []"
  then obtain c cs where s: "s = c # cs" by (cases s) auto
  have "hd (c # tl (split_acronyms (c # cs))) = c" by simp
  with hd_split_acronyms [of c cs] s show ?thesis by simp
qed

lemma trim_one:
  assumes "\<not> is_s x"
  shows "trim (u @ x # v) = dropWhile is_s u @ x # rev (dropWhile is_s (rev v))"
  using trim_middle [of "[x]" u v] assms by simp

lemma dot_in_one_word:
  assumes "\<not> is_ascii x" "\<not> is_s x"
  shows "in_one_word is_sepdot (dot_words (trim (u @ x # v))) u x v"
proof -
  note n = non_ascii_neutral [OF assms]
  let ?u = "dropWhile is_s u" and ?v = "rev (dropWhile is_s (rev v))"
  let ?Y = "split_acronyms (split_pairs is_az ?u)" and ?Z = "split_acronyms (split_pairs is_az ?v)"
  let ?Q = "\<lambda>c. \<not> is_sepdot c"
  have s: "\<And>c. is_s c \<Longrightarrow> \<not> ?Q c" by (simp add: is_sepdot_def)
  have sp: "\<not> ?Q SPACE" by (simp add: is_sepdot_SPACE)
  note fa = filter_split_acronyms [of ?Q, OF sp] and fp = filter_split_pairs [of ?Q, OF sp]
  have w: "dot_words (trim (u @ x # v)) = nonempty (split_runs is_sepdot (?Y @ x # ?Z))"
    unfolding trim_one [OF assms(2)] dot_words_eq
    by (simp add: split_pairs_neutral split_acronyms_neutral n)
  have Y1: "filter ?Q ?Y = filter ?Q u"
    using s by (simp add: fa fp filter_dropWhile_other)
  have Z1: "filter ?Q ?Z = filter ?Q v"
    using s by (simp add: fa fp filter_trim_end)
  have Y2: "?Y \<noteq> [] \<and> \<not> is_sepdot (last ?Y)" if "u \<noteq> [] \<and> \<not> is_sepdot (last u)"
  proof -
    from that have "u \<noteq> []" "\<not> is_s (last u)" by (simp_all add: is_sepdot_def)
    from last_dropWhile_keep [of u is_s, OF this] that show ?thesis
      by (simp add: split_acronyms_eq_Nil split_pairs_eq_Nil last_split_acronyms last_split_pairs)
  qed
  have Z2: "?Z \<noteq> [] \<and> \<not> is_sepdot (hd ?Z)" if "v \<noteq> [] \<and> \<not> is_sepdot (hd v)"
  proof -
    from that have "v \<noteq> []" "\<not> is_s (hd v)" by (simp_all add: is_sepdot_def)
    from hd_trim_end [of v is_s, OF this] that show ?thesis
      by (simp add: split_acronyms_eq_Nil split_pairs_eq_Nil hd_split_acronyms_ne hd_split_pairs)
  qed
  from in_one_word_runs(2) [of is_sepdot x ?Y u ?Z v, OF n(6) Y1 Y2 Z1 Z2]
  show ?thesis unfolding w by simp
qed

lemma lenient_in_one_word:
  assumes "\<not> is_ascii x" "\<not> is_s x" "toLowerCase U (trim s) = u @ x # v"
  shows "in_one_word is_sep (lenient_words U s) u x v"
proof -
  note n = non_ascii_neutral [OF assms(1,2)]
  from in_one_word_runs(1) [of is_sep x u u v v, OF n(5)]
  show ?thesis unfolding lenient_words_eq assms(3) by simp
qed

lemma concat_splitCamel: "concat (nonempty (splitCamel w)) = filter (\<lambda>c. c \<noteq> SPACE) w"
proof -
  have "\<not> (SPACE \<noteq> SPACE)" by simp
  then show ?thesis
    unfolding splitCamel_def concat_nonempty concat_split_at
    by (simp add: filter_split_pairs [of "\<lambda>c. c \<noteq> SPACE"] filter_split_acronyms [of "\<lambda>c. c \<noteq> SPACE"])
qed

lemma concat_words:
  assumes "\<forall>w\<in>set ws. SPACE \<notin> set w"
  shows "concat (concat (map (\<lambda>word. nonempty (splitCamel word)) ws)) = concat ws"
  using assms
proof (induction ws)
  case Nil
  then show ?case by simp
next
  case (Cons w ws)
  then have "filter (\<lambda>c. c \<noteq> SPACE) w = w" by (simp add: filter_id_conv) blast
  with Cons show ?case by (simp add: concat_splitCamel)
qed

lemma word_in_one:
  assumes "\<not> is_ascii x" "\<not> is_s x"
  shows "nonempty (splitCamel (l @ x # r)) =
    nonempty (butlast (splitCamel l)) @ [last (splitCamel l) @ x # hd (splitCamel r)] @
    nonempty (tl (splitCamel r))"
proof -
  note n = non_ascii_neutral [OF assms]
  have "splitCamel (l @ x # r) =
    butlast (splitCamel l) @ [last (splitCamel l) @ x # hd (splitCamel r)] @ tl (splitCamel r)"
    unfolding splitCamel_def
    by (simp add: split_acronyms_neutral split_pairs_neutral split_at_glue n)
  then show ?thesis by (simp add: nonempty_def)
qed

lemma last_splitCamel:
  assumes "l \<noteq> []" "last l \<noteq> SPACE"
  shows "last (splitCamel l) \<noteq> []"
  unfolding splitCamel_def using assms
  by (intro last_split_at(1))
    (simp_all add: split_pairs_eq_Nil split_acronyms_eq_Nil last_split_pairs last_split_acronyms)

lemma hd_splitCamel:
  assumes "r \<noteq> []" "hd r \<noteq> SPACE"
  shows "hd (splitCamel r) \<noteq> []"
  unfolding splitCamel_def using assms
  by (intro hd_split_at(1))
    (simp_all add: split_pairs_eq_Nil split_acronyms_eq_Nil hd_split_pairs hd_split_acronyms_ne)

lemma camel_in_one_word:
  assumes "\<not> is_ascii x" "\<not> is_s x"
  shows "in_one_word is_sep (camel_words (trim (u @ x # v))) u x v"
proof -
  note n = non_ascii_neutral [OF assms]
  let ?u = "dropWhile is_s u" and ?v = "rev (dropWhile is_s (rev v))"
  let ?A = "split_pairs is_az ?u" and ?B = "split_pairs is_az ?v"
  let ?L = "split_runs is_sep ?A" and ?R = "split_runs is_sep ?B"
  let ?f = "\<lambda>word. nonempty (splitCamel word)"
  let ?Q = "\<lambda>c. \<not> is_sep c"
  let ?Ly = "splitCamel (last ?L)" and ?Lz = "splitCamel (hd ?R)"
  let ?ts1 = "concat (map ?f (nonempty (butlast ?L))) @ nonempty (butlast ?Ly)"
  let ?ts2 = "nonempty (tl ?Lz) @ concat (map ?f (nonempty (tl ?R)))"
  have s: "\<And>c. is_s c \<Longrightarrow> \<not> ?Q c" by (simp add: is_sep_def)
  have sp: "\<not> ?Q SPACE" by (simp add: is_sep_SPACE)
  note fp = filter_split_pairs [of ?Q, OF sp]
  have Lne: "?L \<noteq> []" and Rne: "?R \<noteq> []" by simp_all
  have Lyne: "?Ly \<noteq> []" and Lzne: "?Lz \<noteq> []" by (simp_all add: splitCamel_def)
  have nosp: "SPACE \<notin> set w" if "w \<in> set (split_runs is_sep X)" for w X
    using that split_runs_set [of is_sep X] is_sep_SPACE by blast
  have g: "split_runs is_sep (?A @ x # ?B) = butlast ?L @ [last ?L @ x # hd ?R] @ tl ?R"
    using n(5) by (rule split_runs_glue)
  have "camel_words (trim (u @ x # v)) = words_of (?A @ x # ?B)"
    unfolding trim_one [OF assms(2)] camel_words_of by (simp add: split_pairs_neutral n)
  also have "\<dots> = concat (map ?f (nonempty (butlast ?L))) @ ?f (last ?L @ x # hd ?R) @
      concat (map ?f (nonempty (tl ?R)))"
    unfolding words_of_def g by (simp add: nonempty_def)
  also have "\<dots> = ?ts1 @ [last ?Ly @ x # hd ?Lz] @ ?ts2"
    unfolding word_in_one [OF assms] by simp
  finally have w: "camel_words (trim (u @ x # v)) = ?ts1 @ [last ?Ly @ x # hd ?Lz] @ ?ts2" .
  have lastL: "filter (\<lambda>c. c \<noteq> SPACE) (last ?L) = last ?L"
    using nosp [of "last ?L" ?A] Lne by (auto simp: filter_id_conv)
  have hdR: "filter (\<lambda>c. c \<noteq> SPACE) (hd ?R) = hd ?R"
    using nosp [of "hd ?R" ?B] Rne by (auto simp: filter_id_conv)
  have "concat (concat (map ?f (nonempty (butlast ?L)))) = concat (nonempty (butlast ?L))"
  proof (rule concat_words)
    show "\<forall>w\<in>set (nonempty (butlast ?L)). SPACE \<notin> set w"
      using nosp [of _ ?A] by (auto simp: nonempty_def dest: in_set_butlastD)
  qed
  moreover have "concat (nonempty (butlast ?Ly)) @ last ?Ly = last ?L"
    using concat_butlast_last [OF Lyne] concat_splitCamel [of "last ?L"] lastL
    by (simp add: concat_nonempty)
  ultimately have "concat ?ts1 @ last ?Ly = concat (butlast ?L) @ last ?L"
    by (simp add: concat_nonempty)
  also have "\<dots> = filter ?Q ?A" using Lne by (simp add: concat_butlast_last concat_split_runs)
  also have "\<dots> = filter ?Q u" using s by (simp add: fp filter_dropWhile_other)
  finally have l: "concat ?ts1 @ last ?Ly = filter ?Q u" .
  have "concat (concat (map ?f (nonempty (tl ?R)))) = concat (nonempty (tl ?R))"
  proof (rule concat_words)
    have "set (tl ?R) \<subseteq> set ?R" using Rne by (cases ?R) auto
    then show "\<forall>w\<in>set (nonempty (tl ?R)). SPACE \<notin> set w"
      using nosp [of _ ?B] by (auto simp: nonempty_def)
  qed
  moreover have "hd ?Lz @ concat (nonempty (tl ?Lz)) = hd ?R"
    using concat_hd_tl [OF Lzne] concat_splitCamel [of "hd ?R"] hdR
    by (simp add: concat_nonempty)
  ultimately have "hd ?Lz @ concat ?ts2 = hd ?R @ concat (tl ?R)"
    by (simp add: concat_nonempty)
  also have "\<dots> = filter ?Q ?B" using Rne by (simp add: concat_hd_tl concat_split_runs)
  also have "\<dots> = filter ?Q v" using s by (simp add: fp filter_trim_end)
  finally have r: "hd ?Lz @ concat ?ts2 = filter ?Q v" .
  have p: "last ?Ly = [] \<longrightarrow> u = [] \<or> is_sep (last u)"
  proof (rule impI, rule ccontr)
    assume e: "last ?Ly = []" and "\<not> (u = [] \<or> is_sep (last u))"
    then have "u \<noteq> []" "\<not> is_s (last u)" and ns: "\<not> is_sep (last u)"
      by (simp_all add: is_sep_def)
    from last_dropWhile_keep [of u is_s, OF this(1,2)] ns
    have "?A \<noteq> []" "\<not> is_sep (last ?A)"
      by (simp_all add: split_pairs_eq_Nil last_split_pairs)
    from last_split_runs [of ?A is_sep, OF this] have "last ?L \<noteq> []" "last (last ?L) = last ?A" by simp_all
    moreover from this \<open>\<not> is_sep (last ?A)\<close> is_sep_SPACE have "last (last ?L) \<noteq> SPACE" by metis
    ultimately have "last ?Ly \<noteq> []" by (intro last_splitCamel)
    with e show False by simp
  qed
  have q: "hd ?Lz = [] \<longrightarrow> v = [] \<or> is_sep (hd v)"
  proof (rule impI, rule ccontr)
    assume e: "hd ?Lz = []" and "\<not> (v = [] \<or> is_sep (hd v))"
    then have "v \<noteq> []" "\<not> is_s (hd v)" and ns: "\<not> is_sep (hd v)"
      by (simp_all add: is_sep_def)
    from hd_trim_end [of v is_s, OF this(1,2)] ns
    have "?B \<noteq> []" "\<not> is_sep (hd ?B)"
      by (simp_all add: split_pairs_eq_Nil hd_split_pairs)
    from hd_split_runs [of ?B is_sep, OF this] have "hd ?R \<noteq> []" "hd (hd ?R) = hd ?B" by simp_all
    moreover from this \<open>\<not> is_sep (hd ?B)\<close> is_sep_SPACE have "hd (hd ?R) \<noteq> SPACE" by metis
    ultimately have "hd ?Lz \<noteq> []" by (intro hd_splitCamel)
    with e show False by simp
  qed
  from w l r p q show ?thesis unfolding in_one_word_def by blast
qed

subsection \<open>The two words at a boundary\<close>

lemma last_nonempty:
  assumes "ws \<noteq> []" "last ws \<noteq> []"
  shows "nonempty ws \<noteq> []" "last (nonempty ws) = last ws"
proof -
  from assms(1) have ws: "ws = butlast ws @ [last ws]" by simp
  have "nonempty ws = nonempty (butlast ws) @ [last ws]"
    using assms(2) by (subst ws) (simp add: nonempty_def)
  then show "nonempty ws \<noteq> []" "last (nonempty ws) = last ws" by simp_all
qed

lemma hd_nonempty:
  assumes "ws \<noteq> []" "hd ws \<noteq> []"
  shows "nonempty ws \<noteq> []" "hd (nonempty ws) = hd ws"
  using assms by (cases ws; simp add: nonempty_def)+

lemma boundary_between_append:
  assumes L: "L \<noteq> []" "last L \<noteq> []" "last (last L) = a"
      "concat L = filter (\<lambda>c. \<not> sep c) u @ [a]"
    and R: "R \<noteq> []" "hd R \<noteq> []" "hd (hd R) = b"
      "concat R = b # filter (\<lambda>c. \<not> sep c) v"
  shows "boundary_between sep (L @ R) u a b v"
proof -
  let ?p = "butlast (last L)" and ?q = "tl (hd R)"
  from L(2,3) have l: "last L = ?p @ [a]" by (metis append_butlast_last_id)
  from R(2,3) have r: "hd R = b # ?q" by (metis list.collapse)
  from L(1) l have L': "L = butlast L @ [?p @ [a]]" by (metis append_butlast_last_id)
  from R(1) r have R': "R = (b # ?q) # tl R" by (metis list.collapse)
  have "concat (butlast L) @ ?p @ [a] = filter (\<lambda>c. \<not> sep c) u @ [a]"
    using L(4) by (subst (asm) L') simp
  then have 1: "concat (butlast L) @ ?p = filter (\<lambda>c. \<not> sep c) u" by simp
  have "b # ?q @ concat (tl R) = b # filter (\<lambda>c. \<not> sep c) v"
    using R(4) by (subst (asm) R') simp
  then have 2: "?q @ concat (tl R) = filter (\<lambda>c. \<not> sep c) v" by simp
  have "L @ R = butlast L @ [?p @ [a], b # ?q] @ tl R"
    by (subst L', subst R') simp
  with 1 2 show ?thesis unfolding boundary_between_def by blast
qed

lemma boundary_runs:
  assumes "\<not> P a" "\<not> P b" "P SPACE"
    and X: "X \<noteq> []" "last X = a" "filter (\<lambda>c. \<not> P c) X = filter (\<lambda>c. \<not> sep c) u @ [a]"
    and Y: "Y \<noteq> []" "hd Y = b" "filter (\<lambda>c. \<not> P c) Y = b # filter (\<lambda>c. \<not> sep c) v"
  shows "boundary_between sep (nonempty (split_runs P (X @ SPACE # Y))) u a b v"
proof -
  let ?L = "nonempty (split_runs P X)" and ?R = "nonempty (split_runs P Y)"
  have cut: "split_runs P (X @ SPACE # Y) = split_runs P X @ split_runs P Y"
    using assms(3) Y(1,2) assms(2) X(1,2) assms(1) by (intro split_runs_cut) simp_all
  have lx: "last (split_runs P X) \<noteq> []" "last (last (split_runs P X)) = a"
    using last_split_runs [of X P] X(1,2) assms(1) by simp_all
  have hy: "hd (split_runs P Y) \<noteq> []" "hd (hd (split_runs P Y)) = b"
    using hd_split_runs [of Y P] Y(1,2) assms(2) by simp_all
  have L: "?L \<noteq> []" "last ?L \<noteq> []" "last (last ?L) = a"
    using last_nonempty [of "split_runs P X"] lx by simp_all
  have R: "?R \<noteq> []" "hd ?R \<noteq> []" "hd (hd ?R) = b"
    using hd_nonempty [of "split_runs P Y"] hy by simp_all
  have cL: "concat ?L = filter (\<lambda>c. \<not> sep c) u @ [a]"
    using X(3) by (simp add: concat_nonempty concat_split_runs)
  have cR: "concat ?R = b # filter (\<lambda>c. \<not> sep c) v"
    using Y(3) by (simp add: concat_nonempty concat_split_runs)
  from boundary_between_append [OF L cL R cR] show ?thesis
    unfolding cut by (simp add: nonempty_append)
qed

lemma dot_boundary_between:
  assumes "is_az a" "is_AZ b"
  shows "boundary_between is_sepdot (dot_words (trim (u @ a # b # v))) u a b v"
proof -
  let ?u = "dropWhile is_s u" and ?v = "rev (dropWhile is_s (rev v))"
  let ?g = "\<lambda>s. split_acronyms (split_pairs is_az s)"
  let ?Q = "\<lambda>c. \<not> is_sepdot c"
  have sd: "\<not> is_sepdot a" "\<not> is_sepdot b" using assms az_not_s AZ_not_s by blast+
  then have s: "\<not> is_s a" "\<not> is_s b" using not_sep_s by blast+
  have st: "\<And>c. is_s c \<Longrightarrow> \<not> ?Q c" by (simp add: is_sepdot_def)
  have sp: "\<not> ?Q SPACE" by (simp add: is_sepdot_SPACE)
  note fa = filter_split_acronyms [of ?Q, OF sp] and fp = filter_split_pairs [of ?Q, OF sp]
  have t2: "trim (u @ a # SPACE # b # v) = (?u @ [a]) @ SPACE # b # ?v"
    using trim_around [OF s, of u "[SPACE]" v] by simp
  have "dot_words (trim (u @ a # b # v)) = dot_words ((?u @ [a]) @ SPACE # b # ?v)"
    using dot_boundary [OF assms, of u v] t2 by simp
  also have "\<dots> = nonempty (split_runs is_sepdot (?g (?u @ [a]) @ SPACE # ?g (b # ?v)))"
    unfolding dot_words_eq
    by (simp only: split_pairs_neutral [of is_az SPACE, OF SPACE_neutral(2,1)]
        split_acronyms_neutral [of SPACE, OF SPACE_neutral(1,2)])
  finally have w: "dot_words (trim (u @ a # b # v)) =
      nonempty (split_runs is_sepdot (?g (?u @ [a]) @ SPACE # ?g (b # ?v)))" .
  have X: "?g (?u @ [a]) \<noteq> []" "last (?g (?u @ [a])) = a"
    by (simp_all add: split_acronyms_eq_Nil split_pairs_eq_Nil last_split_acronyms last_split_pairs)
  have Y: "?g (b # ?v) \<noteq> []" "hd (?g (b # ?v)) = b"
    by (simp_all add: split_acronyms_eq_Nil split_pairs_eq_Nil hd_split_acronyms_ne hd_split_pairs)
  have fX: "filter ?Q (?g (?u @ [a])) = filter ?Q u @ [a]"
    using st sd by (simp add: fa fp filter_dropWhile_other)
  have fY: "filter ?Q (?g (b # ?v)) = b # filter ?Q v"
    using st sd by (simp add: fa fp filter_trim_end)
  from boundary_runs [of is_sepdot a b, OF sd is_sepdot_SPACE X fX Y fY]
  show ?thesis unfolding w .
qed


lemma removed_SPACE: "is_removed SPACE"
  by (simp add: is_removed_def class_defs)

lemma s_removed: "is_s c \<Longrightarrow> is_removed c"
  using az_not_s [of c] AZ_not_s [of c] d09_not_s [of c]
  by (auto simp: is_removed_def is_sepdot_def)

lemma kebab_filter:
  "filter (\<lambda>c. \<not> is_sep c) (filter is_kept (map (\<lambda>c. if c = UNDERSCORE then SPACE else c) s))
    = filter (\<lambda>c. \<not> is_removed c) s"
proof (induction s)
  case Nil
  show ?case by simp
next
  case (Cons c s)
  show ?case
  proof (cases "is_removed c")
    case True
    have "\<not> (is_kept c \<and> \<not> is_sep c)" using True kept_cases [of c] by (auto simp: is_removed_def)
    with True Cons is_sep_SPACE show ?thesis by auto
  next
    case False
    then have a: "is_az c \<or> is_AZ c \<or> is_09 c" by (simp add: is_removed_def)
    then have "\<not> is_sepdot c" using az_not_s AZ_not_s d09_not_s by blast
    then have "\<not> is_sep c" "c \<noteq> UNDERSCORE" using is_sep_sepdot by (auto simp: is_sepdot_def is_sep_def)
    moreover from a have "is_kept c" by (auto simp: is_kept_def)
    ultimately show ?thesis using False Cons by simp
  qed
qed

lemma kebab_boundary_between:
  assumes "is_az09 a" "is_AZ b"
  shows "boundary_between is_removed (kebab_words (u @ a # b # v)) u a b v"
proof -
  let ?u = "dropWhile is_s u" and ?v = "rev (dropWhile is_s (rev v))"
  let ?f = "\<lambda>c. if c = UNDERSCORE then SPACE else c"
  let ?g = "\<lambda>s. filter is_kept (map ?f (split_pairs is_az09 s))"
  let ?Q = "\<lambda>c. \<not> is_removed c"
  have sd: "\<not> is_sepdot a" "\<not> is_sepdot b" using assms az09_not_sep AZ_not_s by blast+
  then have s: "\<not> is_s a" "\<not> is_s b" and sp: "\<not> is_sep a" "\<not> is_sep b"
    using not_sep_s is_sep_sepdot by blast+
  have al: "\<not> is_removed a" "\<not> is_removed b"
    using assms by (auto simp: is_removed_def is_az09_def)
  then have k: "is_kept a" "is_kept b" "a \<noteq> UNDERSCORE" "b \<noteq> UNDERSCORE"
    using sd by (auto simp: is_removed_def is_kept_def is_sepdot_def)
  have kS: "is_kept SPACE" "SPACE \<noteq> UNDERSCORE" by (simp_all add: class_defs)
  have t2: "trim (u @ a # SPACE # b # v) = (?u @ [a]) @ SPACE # b # ?v"
    using trim_around [OF s, of u "[SPACE]" v] by simp
  obtain A where A: "split_pairs is_az09 (?u @ [a]) = A @ [a]"
    using last_split_pairs [of "?u @ [a]" is_az09] split_pairs_eq_Nil [of is_az09 "?u @ [a]"]
    by (metis append_butlast_last_id last_snoc snoc_eq_iff_butlast)
  obtain B where B: "split_pairs is_az09 (b # ?v) = b # B"
    using hd_split_pairs [of is_az09 "b # ?v"] split_pairs_eq_Nil [of is_az09 "b # ?v"]
    by (metis list.collapse list.distinct(1) list.sel(1))
  have "kebab_words (u @ a # b # v) = kebab_words (u @ a # SPACE # b # v)"
    using assms by (rule kebab_boundary)
  also have "\<dots> = nonempty (split_runs is_sep (?g ((?u @ [a]) @ SPACE # b # ?v)))"
    unfolding kebab_words_eq t2 ..
  also have "?g ((?u @ [a]) @ SPACE # b # ?v) = ?g (?u @ [a]) @ SPACE # ?g (b # ?v)"
    using kS by (simp only: split_pairs_neutral [of is_az09 SPACE, OF SPACE_neutral(3,1)]) simp
  finally have w: "kebab_words (u @ a # b # v) =
    nonempty (split_runs is_sep (?g (?u @ [a]) @ SPACE # ?g (b # ?v)))" .
  have X: "?g (?u @ [a]) \<noteq> []" "last (?g (?u @ [a])) = a"
    unfolding A using k by simp_all
  have Y: "?g (b # ?v) \<noteq> []" "hd (?g (b # ?v)) = b"
    unfolding B using k by simp_all
  have nq: "\<not> ?Q SPACE" by (simp add: removed_SPACE)
  have fX: "filter (\<lambda>c. \<not> is_sep c) (?g (?u @ [a])) = filter ?Q u @ [a]"
    unfolding kebab_filter filter_split_pairs [of ?Q, OF nq]
    using al s_removed by (simp add: filter_dropWhile_other)
  have fY: "filter (\<lambda>c. \<not> is_sep c) (?g (b # ?v)) = b # filter ?Q v"
    unfolding kebab_filter filter_split_pairs [of ?Q, OF nq]
    using al s_removed by (simp add: filter_trim_end)
  from boundary_runs [of is_sep a b, OF sp is_sep_SPACE X fX Y fY]
  show ?thesis unfolding w .
qed

lemma words_of_concat: "concat (words_of X) = filter (\<lambda>c. \<not> is_sep c) X"
proof -
  have "\<forall>w\<in>set (nonempty (split_runs is_sep X)). SPACE \<notin> set w"
    using split_runs_set [of is_sep X] is_sep_SPACE by (auto simp: nonempty_def)
  then show ?thesis
    unfolding words_of_def by (simp add: concat_words concat_nonempty concat_split_runs)
qed

lemma last_last_splitCamel:
  assumes "l \<noteq> []" "last l \<noteq> SPACE"
  shows "last (last (splitCamel l)) = last l"
proof -
  let ?s = "split_pairs is_az09 (split_acronyms l)"
  have "?s \<noteq> []" "last ?s = last l"
    using assms(1)
    by (simp_all add: split_pairs_eq_Nil split_acronyms_eq_Nil last_split_pairs last_split_acronyms)
  with last_split_at(2) [of ?s SPACE] assms(2) show ?thesis by (simp add: splitCamel_def)
qed

lemma hd_hd_splitCamel:
  assumes "r \<noteq> []" "hd r \<noteq> SPACE"
  shows "hd (hd (splitCamel r)) = hd r"
proof -
  let ?s = "split_pairs is_az09 (split_acronyms r)"
  have "?s \<noteq> []" "hd ?s = hd r"
    using assms(1)
    by (simp_all add: split_pairs_eq_Nil split_acronyms_eq_Nil hd_split_pairs hd_split_acronyms_ne)
  with hd_split_at(2) [of ?s SPACE] assms(2) show ?thesis by (simp add: splitCamel_def)
qed

lemma words_of_last:
  assumes "X \<noteq> []" "\<not> is_sep (last X)"
  shows "words_of X \<noteq> []" "last (words_of X) \<noteq> []" "last (last (words_of X)) = last X"
proof -
  let ?R = "split_runs is_sep X"
  let ?f = "\<lambda>word. nonempty (splitCamel word)"
  let ?w = "last ?R"
  from last_split_runs [of X is_sep, OF assms]
  have w: "?w \<noteq> []" "last ?w = last X" by simp_all
  with assms(2) is_sep_SPACE have nsp: "last ?w \<noteq> SPACE" by metis
  have Rne: "?R \<noteq> []" by simp
  from last_nonempty [OF Rne w(1)]
  have N: "nonempty ?R \<noteq> []" "last (nonempty ?R) = ?w" by simp_all
  then have Nd: "nonempty ?R = butlast (nonempty ?R) @ [?w]" by (metis append_butlast_last_id)
  have sc: "splitCamel ?w \<noteq> []" by (simp add: splitCamel_def)
  from last_splitCamel [OF w(1) nsp] last_last_splitCamel [OF w(1) nsp]
  have l: "last (splitCamel ?w) \<noteq> []" "last (last (splitCamel ?w)) = last X" using w(2) by simp_all
  from last_nonempty [OF sc l(1)]
  have f: "?f ?w \<noteq> []" "last (?f ?w) = last (splitCamel ?w)" by simp_all
  have "words_of X = concat (map ?f (butlast (nonempty ?R))) @ ?f ?w"
    unfolding words_of_def by (subst Nd) simp
  with f l show "words_of X \<noteq> []" "last (words_of X) \<noteq> []" "last (last (words_of X)) = last X"
    by simp_all
qed

lemma words_of_hd:
  assumes "X \<noteq> []" "\<not> is_sep (hd X)"
  shows "words_of X \<noteq> []" "hd (words_of X) \<noteq> []" "hd (hd (words_of X)) = hd X"
proof -
  let ?R = "split_runs is_sep X"
  let ?f = "\<lambda>word. nonempty (splitCamel word)"
  let ?w = "hd ?R"
  from hd_split_runs [of X is_sep, OF assms]
  have w: "?w \<noteq> []" "hd ?w = hd X" by simp_all
  with assms(2) is_sep_SPACE have nsp: "hd ?w \<noteq> SPACE" by metis
  have Rne: "?R \<noteq> []" by simp
  from hd_nonempty [OF Rne w(1)]
  have N: "nonempty ?R \<noteq> []" "hd (nonempty ?R) = ?w" by simp_all
  then have Nd: "nonempty ?R = ?w # tl (nonempty ?R)" by (metis list.collapse)
  have sc: "splitCamel ?w \<noteq> []" by (simp add: splitCamel_def)
  from hd_splitCamel [OF w(1) nsp] hd_hd_splitCamel [OF w(1) nsp]
  have l: "hd (splitCamel ?w) \<noteq> []" "hd (hd (splitCamel ?w)) = hd X" using w(2) by simp_all
  from hd_nonempty [OF sc l(1)]
  have f: "?f ?w \<noteq> []" "hd (?f ?w) = hd (splitCamel ?w)" by simp_all
  have "words_of X = ?f ?w @ concat (map ?f (tl (nonempty ?R)))"
    unfolding words_of_def by (subst Nd) simp
  with f l show "words_of X \<noteq> []" "hd (words_of X) \<noteq> []" "hd (hd (words_of X)) = hd X"
    by simp_all
qed

lemma camel_boundary_between:
  assumes "is_az09 a" "is_AZ b"
  shows "boundary_between is_sep (camel_words (trim (u @ a # b # v))) u a b v"
proof -
  let ?u = "dropWhile is_s u" and ?v = "rev (dropWhile is_s (rev v))"
  let ?X = "split_pairs is_az (?u @ [a])" and ?Y = "split_pairs is_az (b # ?v)"
  let ?Q = "\<lambda>c. \<not> is_sep c"
  have sd: "\<not> is_sepdot a" "\<not> is_sepdot b" using assms az09_not_sep AZ_not_s by blast+
  then have s: "\<not> is_s a" "\<not> is_s b" and sp: "\<not> is_sep a" "\<not> is_sep b"
    using not_sep_s is_sep_sepdot by blast+
  have st: "\<And>c. is_s c \<Longrightarrow> \<not> ?Q c" by (simp add: is_sep_def)
  have nq: "\<not> ?Q SPACE" by (simp add: is_sep_SPACE)
  have t2: "trim (u @ a # SPACE # b # v) = (?u @ [a]) @ SPACE # b # ?v"
    using trim_around [OF s, of u "[SPACE]" v] by simp
  have X: "?X \<noteq> []" "last ?X = a" by (simp_all add: split_pairs_eq_Nil last_split_pairs)
  have Y: "?Y \<noteq> []" "hd ?Y = b" by (simp_all add: split_pairs_eq_Nil hd_split_pairs)
  from X obtain A where A: "?X = A @ [a]" by (metis append_butlast_last_id)
  from Y obtain B where B: "?Y = b # B" by (metis list.collapse)
  have "camel_words (trim (u @ a # b # v)) = camel_words ((?u @ [a]) @ SPACE # b # ?v)"
    using camel_boundary [OF assms, of u v] t2 by simp
  also have "\<dots> = words_of (?X @ SPACE # ?Y)"
    unfolding camel_words_of
    by (simp only: split_pairs_neutral [of is_az SPACE, OF SPACE_neutral(2,1)])
  also have "\<dots> = words_of ?X @ words_of ?Y"
    unfolding A B using words_of_SPACE [OF sp, of A B] by simp
  finally have w: "camel_words (trim (u @ a # b # v)) = words_of ?X @ words_of ?Y" .
  have L: "words_of ?X \<noteq> []" "last (words_of ?X) \<noteq> []" "last (last (words_of ?X)) = a"
    using words_of_last [of ?X] X sp by simp_all
  have R: "words_of ?Y \<noteq> []" "hd (words_of ?Y) \<noteq> []" "hd (hd (words_of ?Y)) = b"
    using words_of_hd [of ?Y] Y sp by simp_all
  have cL: "concat (words_of ?X) = filter ?Q u @ [a]"
    unfolding words_of_concat filter_split_pairs [of ?Q, OF nq]
    using st sp by (simp add: filter_dropWhile_other)
  have cR: "concat (words_of ?Y) = b # filter ?Q v"
    unfolding words_of_concat filter_split_pairs [of ?Q, OF nq]
    using st sp by (simp add: filter_trim_end)
  from boundary_between_append [OF L cL R cR] show ?thesis unfolding w .
qed

subsection \<open>toCamelCase with any second argument\<close>


lemma camel_chars_arg:
  assumes "no_new_delims (toLowerCase U)" "no_new_delims (toUpperCase U)" "arg \<noteq> ONull"
  shows "\<exists>r. toCamelCase U arg (VString s) = Inr r \<and>
     list_all (\<lambda>c. \<not> is_s c \<and> c \<noteq> UNDERSCORE) r"
proof -
  from camel_arg [OF assms(3), of U] obtain opts where
    "toCamelCase U arg (VString s) = toCamelCase U (OValue opts) (VString s)" by blast
  with camel_chars [OF assms(1,2), of opts s] show ?thesis by simp
qed

lemma camel_blank_arg:
  assumes "list_all is_sep s" "arg \<noteq> ONull"
  shows "toCamelCase U arg (VString s) = Inr []"
proof -
  from camel_arg [OF assms(2), of U] obtain opts where
    "toCamelCase U arg (VString s) = toCamelCase U (OValue opts) (VString s)" by blast
  with camel_blank [OF assms(1), of U opts] show ?thesis by simp
qed

lemma camel_boundary_arg:
  assumes "is_az09 a" "is_AZ b"
  shows "toCamelCase U arg (VString (u @ a # b # v)) =
    toCamelCase U arg (VString (u @ a # SPACE # b # v))"
proof (cases "arg = ONull")
  case True
  then show ?thesis by (simp add: toCamelCase_null)
next
  case False
  from camel_arg [OF False, of U] obtain opts where
    "\<forall>input. toCamelCase U arg input = toCamelCase U (OValue opts) input" by blast
  with camel_boundary_result [OF assms, of U opts u v] show ?thesis by simp
qed

lemma camel_acronym_arg:
  assumes "is_AZ a" "is_AZ b" "is_az c"
  shows "toCamelCase U arg (VString (u @ a # b # c # v)) =
    toCamelCase U arg (VString (u @ a # SPACE # b # c # v))"
proof (cases "arg = ONull")
  case True
  then show ?thesis by (simp add: toCamelCase_null)
next
  case False
  from camel_arg [OF False, of U] obtain opts where
    "\<forall>input. toCamelCase U arg input = toCamelCase U (OValue opts) input" by blast
  with camel_acronym_result [OF assms, of U opts u v] show ?thesis by simp
qed

lemma camel_myHTTPServer_default:
  "toCamelCase U OUndefined (VString (js ''myHTTPServer'')) = Inr (js ''myHttpServer'')"
  unfolding toCamelCase_undefined by (rule camel_myHTTPServer) (simp add: preserve_def)




section \<open>Input that is not a string\<close>

text \<open>
  Claim C2. On an input that is not a string, \<open>toKebabCase\<close> and the \<open>toCamelCase\<close>
  without options return the empty string and raise nothing; the \<open>toCamelCase\<close> with
  options (whatever its second argument) and \<open>toDotCase\<close> raise a \<open>TypeError\<close> and
  return no string.
\<close>

theorem nonstring_input:
  "toKebabCase U (VOther t) = Inr [] \<and>
   toCamelCase_lenient U (VOther t) = Inr [] \<and>
   toCamelCase U arg (VOther t) = Inl TypeError \<and>
   toDotCase U (VOther t) = Inl TypeError"
  by (cases arg)
    (simp_all add: toKebabCase_def toCamelCase_lenient_def toCamelCase_def toDotCase_def
      default_options_def destructure_def)

section \<open>Totality on strings\<close>




section \<open>Acronyms\<close>

text \<open>
  Claim C3. The documentation of \<open>toCamelCase\<close> promises \<^verbatim>\<open>"FOOBar"\<close> for
  \<^verbatim>\<open>toCamelCase("FOO_BAR", { preserveAcronyms: true })\<close>. The code lowers the first word
  also when it is an acronym and keeps the second one as it is: it returns
  \<^verbatim>\<open>"fooBAR"\<close>.
\<close>

theorem preserveAcronyms_FOO_BAR:
  "toCamelCase U (OValue \<lparr> preserveAcronyms = Some True \<rparr>) (VString (js ''FOO_BAR''))
     = Inr (js ''fooBAR'')"
  by (simp add: eval_defs)

section \<open>Where the separators stand\<close>

text \<open>
  Claim C10. For every input, string or not, the result of \<open>toKebabCase\<close> consists of
  ASCII lower-case letters, digits and hyphens, with no leading, trailing or consecutive
  hyphen. For every string, the result of \<open>toDotCase\<close> has no leading, trailing or
  consecutive dot; its words are lowered by the engine, of whose tables this needs that
  they do not delete a word and do not write a dot that was not there.
\<close>

theorem separators_well_placed:
  "(\<exists>r. toKebabCase U v = Inr r \<and>
       list_all (\<lambda>c. is_az c \<or> is_09 c \<or> c = HYPHEN) r \<and> well_joined HYPHEN r) \<and>
   (keeps_nonempty (toLowerCase U) \<and> no_new_delims (toLowerCase U) \<longrightarrow>
      (\<exists>r. toDotCase U (VString s) = Inr r \<and> well_joined DOT r))"
  using kebab_shape dot_shape by blast

theorem separators_well_placed_witness:
  "keeps_nonempty (toLowerCase ascii_tables) \<and> no_new_delims (toLowerCase ascii_tables) \<and>
   (\<exists>r. toKebabCase ascii_tables (VString (js ''Already--kebab--case'')) = Inr r \<and>
       list_all (\<lambda>c. is_az c \<or> is_09 c \<or> c = HYPHEN) r \<and> well_joined HYPHEN r) \<and>
   (\<exists>r. toDotCase ascii_tables (VString (js ''First Name'')) = Inr r \<and> well_joined DOT r)"
  using separators_well_placed [of ascii_tables "VString (js ''Already--kebab--case'')"
      "js ''First Name''"] tables_nonempty tables_lower_delims
  by blast

section \<open>The characters of the results\<close>

text \<open>
  Claim C5. For every string, the result of each of the four functions has no white
  space and no underscore, and the results of \<open>toKebabCase\<close> and \<open>toDotCase\<close> have no
  ASCII capital (the \<open>toCamelCase\<close> with options called with no second argument or
  with any but \<^verbatim>\<open>null\<close>, with which it has no result). \<open>toKebabCase\<close> converts ASCII only; for the other three this needs of
  the engine's tables that a case conversion writes no white space or underscore that
  it did not read, and for \<open>toDotCase\<close> that lowering leaves no ASCII capital.
\<close>

theorem output_characters:
  "(\<exists>r. toKebabCase U (VString s) = Inr r \<and>
       list_all (\<lambda>c. \<not> is_s c \<and> c \<noteq> UNDERSCORE \<and> \<not> is_AZ c) r) \<and>
   (no_new_delims (toLowerCase U) \<and> no_capitals (toLowerCase U) \<longrightarrow>
     (\<exists>r. toDotCase U (VString s) = Inr r \<and>
       list_all (\<lambda>c. \<not> is_s c \<and> c \<noteq> UNDERSCORE \<and> \<not> is_AZ c) r)) \<and>
   (no_new_delims (toLowerCase U) \<and> no_new_delims (toUpperCase U) \<and> arg \<noteq> ONull \<longrightarrow>
     (\<exists>r. toCamelCase U arg (VString s) = Inr r \<and>
       list_all (\<lambda>c. \<not> is_s c \<and> c \<noteq> UNDERSCORE) r)) \<and>
   (no_new_delims (toUpperCase U) \<longrightarrow>
     (\<exists>r. toCamelCase_lenient U (VString s) = Inr r \<and>
       list_all (\<lambda>c. \<not> is_s c \<and> c \<noteq> UNDERSCORE) r))"
  using kebab_chars dot_chars camel_chars_arg lenient_chars by blast

theorem output_characters_witness:
  "no_new_delims (toLowerCase ascii_tables) \<and> no_new_delims (toUpperCase ascii_tables) \<and>
   no_capitals (toLowerCase ascii_tables) \<and>
   (\<exists>r. toKebabCase ascii_tables (VString (js ''snake_case example'')) = Inr r \<and>
       list_all (\<lambda>c. \<not> is_s c \<and> c \<noteq> UNDERSCORE \<and> \<not> is_AZ c) r) \<and>
   (\<exists>r. toDotCase ascii_tables (VString (js ''snake_case example'')) = Inr r \<and>
       list_all (\<lambda>c. \<not> is_s c \<and> c \<noteq> UNDERSCORE \<and> \<not> is_AZ c) r) \<and>
   OUndefined \<noteq> ONull \<and>
   (\<exists>r. toCamelCase ascii_tables OUndefined (VString (js ''snake_case example'')) = Inr r \<and>
       list_all (\<lambda>c. \<not> is_s c \<and> c \<noteq> UNDERSCORE) r) \<and>
   (\<exists>r. toCamelCase_lenient ascii_tables (VString (js ''snake_case example'')) = Inr r \<and>
       list_all (\<lambda>c. \<not> is_s c \<and> c \<noteq> UNDERSCORE) r)"
proof -
  have n: "OUndefined \<noteq> ONull" by simp
  from n output_characters [where U = ascii_tables and s = "js ''snake_case example''"
      and arg = OUndefined]
    tables_lower_delims tables_upper_delims tables_no_capitals
  show ?thesis by blast
qed

section \<open>Blank input\<close>

text \<open>
  Claim C1, as amended. A string that is empty or consists of separators only (white
  space, underscore, hyphen, and for \<open>toDotCase\<close> also the dot) gives the empty string
  in each of the four functions (the \<open>toCamelCase\<close> with options called with no second
  argument or with any but \<^verbatim>\<open>null\<close>), and so does a string without any ASCII letter or
  digit (punctuation only) in \<open>toKebabCase\<close>, the one function that removes punctuation.
  The \<open>toCamelCase\<close> without options lowers the string before it splits it: there the
  statement needs that the engine's \<open>toLowerCase\<close> leaves a string of separators as
  it is.
\<close>

theorem blank_input:
  "(list_all (\<lambda>c. \<not> (is_az c \<or> is_AZ c \<or> is_09 c)) s \<longrightarrow> toKebabCase U (VString s) = Inr []) \<and>
   (list_all is_sep s \<and> arg \<noteq> ONull \<longrightarrow> toCamelCase U arg (VString s) = Inr []) \<and>
   (list_all is_sep s \<and> fixes_separators (toLowerCase U) \<longrightarrow>
      toCamelCase_lenient U (VString s) = Inr []) \<and>
   (list_all is_sepdot s \<longrightarrow> toDotCase U (VString s) = Inr [])"
  using kebab_blank camel_blank_arg lenient_blank dot_blank by blast

theorem blank_input_witness:
  "list_all (\<lambda>c. \<not> (is_az c \<or> is_AZ c \<or> is_09 c)) (js ''!@#'') \<and>
   toKebabCase ascii_tables (VString (js ''!@#'')) = Inr [] \<and>
   list_all is_sep (js ''  ---___   '') \<and> list_all is_sepdot (js ''  ---___   '') \<and>
   fixes_separators (toLowerCase ascii_tables) \<and> OUndefined \<noteq> ONull \<and>
   toKebabCase ascii_tables (VString (js ''  ---___   '')) = Inr [] \<and>
   toCamelCase ascii_tables OUndefined (VString (js ''  ---___   '')) = Inr [] \<and>
   toCamelCase_lenient ascii_tables (VString (js ''  ---___   '')) = Inr [] \<and>
   toDotCase ascii_tables (VString (js ''  ---___   '')) = Inr []"
proof -
  have a: "list_all (\<lambda>c. \<not> (is_az c \<or> is_AZ c \<or> is_09 c)) (js ''!@#'')"
    by (simp add: js_def class_defs)
  have b: "list_all (\<lambda>c. \<not> (is_az c \<or> is_AZ c \<or> is_09 c)) (js ''  ---___   '')"
    by (simp add: js_def class_defs)
  have c: "list_all is_sep (js ''  ---___   '')" by (simp add: js_def class_defs)
  have d: "list_all is_sepdot (js ''  ---___   '')" by (simp add: js_def class_defs)
  have n: "OUndefined \<noteq> ONull" by simp
  from a b c d n tables_fixes
    blank_input [where s = "js ''!@#''" and U = ascii_tables and arg = OUndefined]
    blank_input [where s = "js ''  ---___   ''" and U = ascii_tables and arg = OUndefined]
  show ?thesis by blast
qed

text \<open>
  The claim as it was written also promised the empty string for a string of
  punctuation in the other three functions. They have no step that removes punctuation:
  \<^verbatim>\<open>"!@#"\<close> is one word and comes back as it is.
\<close>

theorem punctuation_only_counterexample:
  "toCamelCase ascii_tables OUndefined (VString (js ''!@#'')) = Inr (js ''!@#'') \<and>
   toCamelCase_lenient ascii_tables (VString (js ''!@#'')) = Inr (js ''!@#'') \<and>
   toDotCase ascii_tables (VString (js ''!@#'')) = Inr (js ''!@#'') \<and>
   js ''!@#'' \<noteq> []"
  by (simp add: eval_defs)

section \<open>Idempotence\<close>

text \<open>
  Claim C4, as amended. For every string, \<open>toKebabCase\<close> maps its own result to itself,
  and so does \<open>toDotCase\<close>. \<open>toDotCase\<close> lowers its words with the engine's
  \<open>toLowerCase\<close>, of which this needs: it changes nothing when applied again, it maps
  no word to the empty string, it writes no separator that it did not read, and it
  leaves no ASCII capital.
\<close>

theorem idempotence:
  "(\<exists>r. toKebabCase U (VString s) = Inr r \<and> toKebabCase U (VString r) = Inr r) \<and>
   (idempotent (toLowerCase U) \<and> keeps_nonempty (toLowerCase U) \<and>
    no_new_delims (toLowerCase U) \<and> no_capitals (toLowerCase U) \<longrightarrow>
      (\<exists>r. toDotCase U (VString s) = Inr r \<and> toDotCase U (VString r) = Inr r))"
  using kebab_idempotent dot_idempotent by blast

theorem idempotence_witness:
  "idempotent (toLowerCase ascii_tables) \<and> keeps_nonempty (toLowerCase ascii_tables) \<and>
   no_new_delims (toLowerCase ascii_tables) \<and> no_capitals (toLowerCase ascii_tables) \<and>
   (\<exists>r. toKebabCase ascii_tables (VString (js ''myHTTPServer'')) = Inr r \<and>
        toKebabCase ascii_tables (VString r) = Inr r) \<and>
   (\<exists>r. toDotCase ascii_tables (VString (js ''myHTTPServer'')) = Inr r \<and>
        toDotCase ascii_tables (VString r) = Inr r)"
  using idempotence [of ascii_tables "js ''myHTTPServer''"]
    tables_idempotent tables_nonempty tables_lower_delims tables_no_capitals
  by blast

text \<open>
  The claim as it was written also named the \<open>toCamelCase\<close> without options. That
  function lowers the whole string first, so the capital it writes at the head of a
  word is not a boundary when the result is read again: \<^verbatim>\<open>"a b"\<close> gives \<^verbatim>\<open>"aB"\<close>,
  and \<^verbatim>\<open>"aB"\<close> gives \<^verbatim>\<open>"ab"\<close>.
\<close>

theorem lenient_not_idempotent:
  "toCamelCase_lenient ascii_tables (VString (js ''a b'')) = Inr (js ''aB'') \<and>
   toCamelCase_lenient ascii_tables (VString (js ''aB'')) = Inr (js ''ab'') \<and>
   js ''ab'' \<noteq> js ''aB''"
  by (simp add: eval_defs)

section \<open>The boundary before a capital\<close>

text \<open>
  Claim C6, as amended. In \<open>toKebabCase\<close> and in the \<open>toCamelCase\<close> with options, an
  ASCII lower-case letter or digit followed by an ASCII capital is a word boundary.
  Wherever the two stand in the string, one word ends with the first of them and the
  next word begins with the second, and the words keep what stands before and behind
  (\<open>boundary_between\<close>); the words (and the result) are those of the string with a
  space written between the two. \<^verbatim>\<open>"a1B"\<close> has the two words \<^verbatim>\<open>"a1"\<close> and \<^verbatim>\<open>"B"\<close>,
  and gives \<^verbatim>\<open>"a1-b"\<close> and \<^verbatim>\<open>"a1B"\<close>. In \<open>toDotCase\<close> the same holds of an ASCII
  lower-case letter followed by an ASCII capital: \<^verbatim>\<open>"aB"\<close> has the two words \<^verbatim>\<open>"a"\<close>
  and \<^verbatim>\<open>"B"\<close>, and gives \<^verbatim>\<open>"a.b"\<close>.
\<close>

theorem case_boundary:
  "(is_az09 a \<and> is_AZ b \<longrightarrow>
      boundary_between is_removed (kebab_words (u @ a # b # v)) u a b v \<and>
      kebab_words (u @ a # b # v) = kebab_words (u @ a # SPACE # b # v) \<and>
      toKebabCase U (VString (u @ a # b # v)) = toKebabCase U (VString (u @ a # SPACE # b # v)) \<and>
      boundary_between is_sep (camel_words (trim (u @ a # b # v))) u a b v \<and>
      camel_words (trim (u @ a # b # v)) = camel_words (trim (u @ a # SPACE # b # v)) \<and>
      toCamelCase U arg (VString (u @ a # b # v)) =
        toCamelCase U arg (VString (u @ a # SPACE # b # v))) \<and>
   (is_az a \<and> is_AZ b \<longrightarrow>
      boundary_between is_sepdot (dot_words (trim (u @ a # b # v))) u a b v \<and>
      dot_words (trim (u @ a # b # v)) = dot_words (trim (u @ a # SPACE # b # v)) \<and>
      toDotCase U (VString (u @ a # b # v)) = toDotCase U (VString (u @ a # SPACE # b # v))) \<and>
   kebab_words (js ''a1B'') = [js ''a1'', js ''B''] \<and>
   toKebabCase U (VString (js ''a1B'')) = Inr (js ''a1-b'') \<and>
   camel_words (trim (js ''a1B'')) = [js ''a1'', js ''B''] \<and>
   toCamelCase U OUndefined (VString (js ''a1B'')) = Inr (js ''a1B'') \<and>
   dot_words (trim (js ''aB'')) = [js ''a'', js ''B''] \<and>
   toDotCase U (VString (js ''aB'')) = Inr (js ''a.b'')"
  using kebab_boundary [of a b u v] kebab_boundary_result [of a b U u v]
    kebab_boundary_between [of a b u v]
    camel_boundary [of a b u v] camel_boundary_arg [of a b U arg u v]
    camel_boundary_between [of a b u v]
    dot_boundary [of a b u v] dot_boundary_result [of a b U u v]
    dot_boundary_between [of a b u v] a1B_words a1B_results [of U]
  by blast

theorem case_boundary_witness:
  "is_az09 0x31 \<and> is_AZ 0x42 \<and> is_az 0x61 \<and>
   boundary_between is_removed (kebab_words (js ''a1B'')) (js ''a'') 0x31 0x42 [] \<and>
   kebab_words (js ''a1B'') = kebab_words (js ''a1 B'') \<and>
   boundary_between is_sep (camel_words (trim (js ''a1B''))) (js ''a'') 0x31 0x42 [] \<and>
   camel_words (trim (js ''a1B'')) = camel_words (trim (js ''a1 B'')) \<and>
   boundary_between is_sepdot (dot_words (trim (js ''aB''))) [] 0x61 0x42 [] \<and>
   dot_words (trim (js ''aB'')) = dot_words (trim (js ''a B'')) \<and>
   dot_words (trim (js ''aB'')) = [js ''a'', js ''B'']"
proof -
  have c: "is_az09 0x31" "is_AZ 0x42" "is_az 0x61" by (simp_all add: class_defs)
  have s: "js ''a1B'' = js ''a'' @ 0x31 # 0x42 # []" "js ''a1 B'' = js ''a'' @ 0x31 # SPACE # 0x42 # []"
    "js ''aB'' = [] @ 0x61 # 0x42 # []" "js ''a B'' = [] @ 0x61 # SPACE # 0x42 # []"
    by (simp_all add: js_def SPACE_def)
  from c case_boundary [where a = "0x31" and b = "0x42" and u = "js ''a''" and v = "[]"]
    case_boundary [where a = "0x61" and b = "0x42" and u = "[]" and v = "[]"]
  show ?thesis unfolding s by blast
qed

text \<open>
  The claim as it was written named all four functions and a digit before the capital.
  \<open>toDotCase\<close> looks for \<^verbatim>\<open>[a-z]\<close> before the capital, not for a digit: there
  \<^verbatim>\<open>"a1B"\<close> is one word. The \<open>toCamelCase\<close> without options lowers the string before
  it splits it, and splits at separators only: there \<^verbatim>\<open>"a1B"\<close> is one word, and so is
  \<^verbatim>\<open>"aB"\<close>.
\<close>

theorem no_boundary_counterexample:
  "dot_words (trim (js ''a1B'')) = [js ''a1B''] \<and>
   [js ''a1B''] \<noteq> [js ''a1'', js ''B''] \<and>
   toDotCase ascii_tables (VString (js ''a1B'')) = Inr (js ''a1b'') \<and>
   lenient_words ascii_tables (js ''a1B'') = [js ''a1b''] \<and>
   toCamelCase_lenient ascii_tables (VString (js ''a1B'')) = Inr (js ''a1b'') \<and>
   lenient_words ascii_tables (js ''aB'') = [js ''ab''] \<and>
   toCamelCase_lenient ascii_tables (VString (js ''aB'')) = Inr (js ''ab'')"
  by (simp add: eval_defs)

section \<open>The boundary inside a run of capitals\<close>

text \<open>
  Claim C7. In the \<open>toCamelCase\<close> with options and in \<open>toDotCase\<close>, a capital that
  is followed by a capital and a lower-case letter ends a word: wherever the three stand
  in the string (so also at the end of a run of two or more capitals), the words and the
  result are those of the string with a space written behind the first of them. So
  \<^verbatim>\<open>"myHTTPServer"\<close> becomes \<^verbatim>\<open>"myHttpServer"\<close> (with the default options: with no
  second argument, and with an object that does not set \<^verbatim>\<open>preserveAcronyms\<close>) and
  \<^verbatim>\<open>"my.http.server"\<close>.
\<close>

theorem acronym_boundary:
  "(is_AZ a \<and> is_AZ b \<and> is_az c \<longrightarrow>
      camel_words (trim (u @ a # b # c # v)) = camel_words (trim (u @ a # SPACE # b # c # v)) \<and>
      toCamelCase U arg (VString (u @ a # b # c # v)) =
        toCamelCase U arg (VString (u @ a # SPACE # b # c # v)) \<and>
      dot_words (trim (u @ a # b # c # v)) = dot_words (trim (u @ a # SPACE # b # c # v)) \<and>
      toDotCase U (VString (u @ a # b # c # v)) =
        toDotCase U (VString (u @ a # SPACE # b # c # v))) \<and>
   (\<not> preserve opts \<longrightarrow>
      toCamelCase U (OValue opts) (VString (js ''myHTTPServer'')) = Inr (js ''myHttpServer'')) \<and>
   toCamelCase U OUndefined (VString (js ''myHTTPServer'')) = Inr (js ''myHttpServer'') \<and>
   toDotCase U (VString (js ''myHTTPServer'')) = Inr (js ''my.http.server'')"
  using camel_acronym_boundary [of a b c u v] camel_acronym_arg [of a b c U arg u v]
    dot_acronym_boundary [of a b c u v] dot_acronym_result [of a b c U u v]
    camel_myHTTPServer [of opts U] camel_myHTTPServer_default [of U] dot_myHTTPServer [of U]
  by blast

theorem acronym_boundary_witness:
  "is_AZ 0x50 \<and> is_AZ 0x53 \<and> is_az 0x65 \<and>
   camel_words (trim (js ''myHTTPServer'')) = camel_words (trim (js ''myHTTP Server'')) \<and>
   dot_words (trim (js ''myHTTPServer'')) = dot_words (trim (js ''myHTTP Server'')) \<and>
   \<not> preserve \<lparr> preserveAcronyms = None \<rparr> \<and>
   toCamelCase ascii_tables (OValue \<lparr> preserveAcronyms = None \<rparr>) (VString (js ''myHTTPServer''))
     = Inr (js ''myHttpServer'')"
proof -
  have c: "is_AZ 0x50" "is_AZ 0x53" "is_az 0x65" by (simp_all add: class_defs)
  have p: "\<not> preserve \<lparr> preserveAcronyms = None \<rparr>" by (simp add: preserve_def)
  have s: "js ''myHTTPServer'' = js ''myHTT'' @ 0x50 # 0x53 # 0x65 # js ''rver''"
    "js ''myHTTP Server'' = js ''myHTT'' @ 0x50 # SPACE # 0x53 # 0x65 # js ''rver''"
    by (simp_all add: js_def SPACE_def)
  from c p acronym_boundary [where a = "0x50" and b = "0x53" and c = "0x65"
      and u = "js ''myHTT''" and v = "js ''rver''" and U = ascii_tables
      and opts = "\<lparr> preserveAcronyms = None \<rparr>"]
  show ?thesis unfolding s by blast
qed

section \<open>Letters that are not ASCII\<close>

text \<open>
  Claim C8, as amended. In the \<open>toCamelCase\<close> with options, in \<open>toDotCase\<close> and in the
  \<open>toCamelCase\<close> without options, a code unit \<open>x\<close> that is not ASCII and no white space
  (a letter with an accent, say) is kept and is no boundary: the words, as they are
  before the case conversion, have \<open>x\<close> in one word together with its neighbours
  (\<open>in_one_word\<close>). The \<open>toCamelCase\<close> without options lowers the string before it
  splits it, so there \<open>u @ x # v\<close> is the lowered string.
\<close>

theorem non_ascii_letters:
  "\<not> is_ascii x \<and> \<not> is_s x \<longrightarrow>
     in_one_word is_sep (camel_words (trim (u @ x # v))) u x v \<and>
     in_one_word is_sepdot (dot_words (trim (u @ x # v))) u x v \<and>
     (toLowerCase U (trim s) = u @ x # v \<longrightarrow> in_one_word is_sep (lenient_words U s) u x v)"
  using camel_in_one_word [of x u v] dot_in_one_word [of x u v] lenient_in_one_word [of x U s u v]
  by blast

theorem non_ascii_letters_witness:
  "\<not> is_ascii 0xE9 \<and> \<not> is_s 0xE9 \<and>
   in_one_word is_sep (camel_words (trim (js ''caf'' @ 0xE9 # js '' au lait'')))
     (js ''caf'') 0xE9 (js '' au lait'') \<and>
   in_one_word is_sepdot (dot_words (trim (js ''caf'' @ 0xE9 # js '' au lait'')))
     (js ''caf'') 0xE9 (js '' au lait'') \<and>
   toLowerCase ascii_tables (trim (js ''Caf'' @ 0xE9 # js '' au lait'')) =
     js ''caf'' @ 0xE9 # js '' au lait'' \<and>
   in_one_word is_sep (lenient_words ascii_tables (js ''Caf'' @ 0xE9 # js '' au lait''))
     (js ''caf'') 0xE9 (js '' au lait'') \<and>
   camel_words (trim (js ''caf'' @ 0xE9 # js '' au lait'')) =
     [js ''caf'' @ [0xE9], js ''au'', js ''lait''] \<and>
   dot_words (trim (js ''caf'' @ 0xE9 # js '' au lait'')) =
     [js ''caf'' @ [0xE9], js ''au'', js ''lait'']"
proof -
  have c: "\<not> is_ascii 0xE9" "\<not> is_s 0xE9" by (simp_all add: class_defs)
  have l: "toLowerCase ascii_tables (trim (js ''Caf'' @ 0xE9 # js '' au lait'')) =
     js ''caf'' @ 0xE9 # js '' au lait''"
    by (simp add: toLowerCase_tables js_def trim_def ascii_lower_def class_defs)
  have w: "camel_words (trim (js ''caf'' @ 0xE9 # js '' au lait'')) =
     [js ''caf'' @ [0xE9], js ''au'', js ''lait'']"
    "dot_words (trim (js ''caf'' @ 0xE9 # js '' au lait'')) =
     [js ''caf'' @ [0xE9], js ''au'', js ''lait'']"
    by (simp_all add: words_defs)
  from c l non_ascii_letters [of "0xE9" "js ''caf''" "js '' au lait''" ascii_tables
      "js ''Caf'' @ 0xE9 # js '' au lait''"]
  have "in_one_word is_sep (camel_words (trim (js ''caf'' @ 0xE9 # js '' au lait'')))
     (js ''caf'') 0xE9 (js '' au lait'')"
    "in_one_word is_sepdot (dot_words (trim (js ''caf'' @ 0xE9 # js '' au lait'')))
     (js ''caf'') 0xE9 (js '' au lait'')"
    "in_one_word is_sep (lenient_words ascii_tables (js ''Caf'' @ 0xE9 # js '' au lait''))
     (js ''caf'') 0xE9 (js '' au lait'')"
    by blast+
  with c l w show ?thesis by blast
qed

text \<open>
  The claim as it was written named every function. \<open>toKebabCase\<close> removes each code
  unit that is not in \<^verbatim>\<open>[a-zA-Z0-9\s-]\<close>, and so every letter that is not ASCII:
  the string \<^verbatim>\<open>"caf"\<close> with U+00E9 (e acute) behind it gives \<^verbatim>\<open>"caf"\<close>.
\<close>

theorem kebab_strips_non_ascii:
  "kebab_words (js ''caf'' @ [0xE9]) = [js ''caf''] \<and>
   toKebabCase ascii_tables (VString (js ''caf'' @ [0xE9])) = Inr (js ''caf'')"
  by (simp add: eval_defs)

end
